theory Spec2Isabelle
  imports Main
begin

section \<open>SessionRateLimiter: configuration\<close>

text \<open>
  The limiter of \<^verbatim>\<open>src/lib/session-rate-limiter.ts\<close>. JavaScript numbers that hold
  counters and millisecond timestamps are modelled as \<open>int\<close>; a credential
  (\<^verbatim>\<open>sessionId\<close>) is a \<open>string\<close>.

  \<^verbatim>\<open>parseIntWithDefault(value, fallback)\<close> returns \<^verbatim>\<open>Number.parseInt(value || "", 10)\<close>
  when that is finite and the fallback otherwise. The outcome of \<^verbatim>\<open>Number.parseInt\<close>
  is the argument here: \<open>None\<close> stands for a result that is not finite.
\<close>

definition parseIntWithDefault :: "int option \<Rightarrow> int \<Rightarrow> int" where
  "parseIntWithDefault parsed fallback = (case parsed of Some n \<Rightarrow> n | None \<Rightarrow> fallback)"

definition maskSession :: "string \<Rightarrow> string" where
  "maskSession sessionId =
     (if sessionId = [] then ''unknown''
      else if length sessionId \<le> 10 then ''***''
      else take 4 sessionId @ ''***'' @ drop (length sessionId - 4) sessionId)"

record environment =
  SESSION_RATE_LIMIT_ENABLED :: "string option"
  SESSION_MIN_INTERVAL_MS :: "int option"
  SESSION_MAX_CONCURRENT :: "int option"
  SESSION_MAX_QUEUE_PER_SESSION :: "int option"
  SESSION_QUEUE_TIMEOUT_MS :: "int option"
  REDIS_URL :: "string option"
  SESSION_RATE_LIMIT_DISTRIBUTED :: "string option"
  SESSION_INFLIGHT_TTL_MS :: "int option"
  SESSION_REDIS_POLL_INTERVAL_MS :: "int option"

record config =
  enabled :: bool
  minIntervalMs :: int
  maxConcurrent :: int
  maxQueuePerSession :: int
  queueTimeoutMs :: int
  useRedisDistributed :: bool
  redisUrl :: string
  inflightTtlMs :: int
  redisPollIntervalMs :: int

text \<open>
  \<^verbatim>\<open>String.prototype.trim\<close> removes, from both ends, the white space and the line
  terminators of ECMAScript: U+0009 to U+000D, U+0020, U+00A0, U+1680, U+2000 to
  U+200A, U+2028, U+2029, U+202F, U+205F, U+3000 and U+FEFF. A string is the list of
  its UTF-8 bytes, so each of these code points is a sequence of one to three bytes;
  \<open>trimStart ws\<close> drops the sequences of \<open>ws\<close> from the front for as long as one
  is there.
\<close>

definition whiteSpace :: "string list" where
  "whiteSpace =
     [[CHR 0x09], [CHR 0x0A], [CHR 0x0B], [CHR 0x0C], [CHR 0x0D], [CHR 0x20],
      [CHR 0xC2, CHR 0xA0], [CHR 0xE1, CHR 0x9A, CHR 0x80],
      [CHR 0xE2, CHR 0x80, CHR 0x80], [CHR 0xE2, CHR 0x80, CHR 0x81], [CHR 0xE2, CHR 0x80, CHR 0x82],
      [CHR 0xE2, CHR 0x80, CHR 0x83], [CHR 0xE2, CHR 0x80, CHR 0x84], [CHR 0xE2, CHR 0x80, CHR 0x85],
      [CHR 0xE2, CHR 0x80, CHR 0x86], [CHR 0xE2, CHR 0x80, CHR 0x87], [CHR 0xE2, CHR 0x80, CHR 0x88],
      [CHR 0xE2, CHR 0x80, CHR 0x89], [CHR 0xE2, CHR 0x80, CHR 0x8A], [CHR 0xE2, CHR 0x80, CHR 0xA8],
      [CHR 0xE2, CHR 0x80, CHR 0xA9], [CHR 0xE2, CHR 0x80, CHR 0xAF], [CHR 0xE2, CHR 0x81, CHR 0x9F],
      [CHR 0xE3, CHR 0x80, CHR 0x80], [CHR 0xEF, CHR 0xBB, CHR 0xBF]]"

function trimStart :: "string list \<Rightarrow> string \<Rightarrow> string" where
  "trimStart ws s =
     (case find (\<lambda>w. w \<noteq> [] \<and> take (length w) s = w) ws of
        None \<Rightarrow> s
      | Some w \<Rightarrow> trimStart ws (drop (length w) s))"
  by pat_completeness auto
termination
proof (relation "measure (\<lambda>(ws, s). length s)")
  show "wf (measure (\<lambda>(ws, s). length s))" by simp
next
  fix ws :: "string list" and s w :: string
  assume "find (\<lambda>w. w \<noteq> [] \<and> take (length w) s = w) ws = Some w"
  then have w: "w \<noteq> []" "take (length w) s = w" by (auto simp: find_Some_iff)
  have "s \<noteq> []" using w by auto
  then show "((ws, drop (length w) s), (ws, s)) \<in> measure (\<lambda>(ws, s). length s)" using w(1) by simp
qed

definition trim :: "string \<Rightarrow> string" where
  "trim s = rev (trimStart (map rev whiteSpace) (rev (trimStart whiteSpace s)))"

text \<open>The constructor: every numeric setting is clamped from below by \<^verbatim>\<open>Math.max\<close>.\<close>

definition constructor :: "environment \<Rightarrow> config" where
  "constructor env =
     (let url = trim (case REDIS_URL env of Some u \<Rightarrow> u | None \<Rightarrow> [])
      in \<lparr> enabled = (SESSION_RATE_LIMIT_ENABLED env \<noteq> Some ''false''),
           minIntervalMs = max 0 (parseIntWithDefault (SESSION_MIN_INTERVAL_MS env) 200),
           maxConcurrent = max 1 (parseIntWithDefault (SESSION_MAX_CONCURRENT env) 20),
           maxQueuePerSession = max 1 (parseIntWithDefault (SESSION_MAX_QUEUE_PER_SESSION env) 2000),
           queueTimeoutMs = max 1000 (parseIntWithDefault (SESSION_QUEUE_TIMEOUT_MS env) 120000),
           useRedisDistributed = (SESSION_RATE_LIMIT_DISTRIBUTED env \<noteq> Some ''false'' \<and> length url > 0),
           redisUrl = url,
           inflightTtlMs = max 10000 (parseIntWithDefault (SESSION_INFLIGHT_TTL_MS env) 120000),
           redisPollIntervalMs = max 20 (parseIntWithDefault (SESSION_REDIS_POLL_INTERVAL_MS env) 60) \<rparr>)"

section \<open>SessionRateLimiter: local mode\<close>

text \<open>
  A \<^verbatim>\<open>SessionBucket\<close> is a mutable object that closures (release functions, waiter
  timeouts, the retry timer) capture by reference, while the registry
  \<^verbatim>\<open>buckets: Map<string, SessionBucket>\<close> may drop it and later create another object
  for the same credential. Bucket objects therefore live in an explicit store, addressed
  by \<open>nat\<close>; the registry maps a credential to an address. A \<^verbatim>\<open>QueueWaiter\<close> is
  identified by a number, fresh for each call of \<^verbatim>\<open>acquireLocal\<close>.

  The field \<open>timer\<close> is the handle of the retry timer: \<open>Some (sessionId, t)\<close> is a
  pending \<^verbatim>\<open>setTimeout\<close> whose callback captured \<open>sessionId\<close> (and the bucket that
  holds the handle) and is due at time \<open>t\<close>; the source stores the handle at line 272
  and clears it only inside that callback, at line 273.
\<close>

datatype error =
    QueueOverflow string int
  | WaitTimeout string int
  | RedisError string

record bucket =
  active :: int
  lastStartedAt :: int
  queue :: "nat list"
  timer :: "(string \<times> int) option"

text \<open>
  The environment of the timeout callback of a waiter (lines 228 to 238), and the time
  \<open>th_deadline\<close> at which its timer is due: the clock at the call of \<^verbatim>\<open>setTimeout\<close>
  plus the delay that the runtime applies.
\<close>

record timeout_handle =
  th_waiter :: nat
  th_session :: string
  th_bucket :: nat
  th_deadline :: int

text \<open>
  The release closure built at a grant (lines 287 to 294), with its captured variables
  and its flag \<^verbatim>\<open>released\<close>; \<open>rc_startedAt\<close> records the value stored in
  \<^verbatim>\<open>lastStartedAt\<close> at that grant, the start of the grant.
\<close>

record release_closure =
  rc_waiter :: nat
  rc_session :: string
  rc_bucket :: nat
  rc_released :: bool
  rc_startedAt :: int

record limiter =
  buckets :: "string \<Rightarrow> nat option"
  heap :: "nat \<Rightarrow> bucket"
  next_addr :: nat
  next_waiter :: nat
  timeouts :: "timeout_handle list"
  closures :: "release_closure list"
  rejected :: "(nat \<times> error) list"

text \<open>
  The timers of lines 228 and 272 are set with \<^verbatim>\<open>setTimeout(callback, delay)\<close>. The
  runtime keeps a delay between 1 and 2147483647 milliseconds and replaces any other
  delay by 1 millisecond; \<open>setTimeout_delay\<close> is the delay after which the callback
  runs.
\<close>

definition setTimeout_delay :: "int \<Rightarrow> int" where
  "setTimeout_delay d = (if 1 \<le> d \<and> d \<le> 2147483647 then d else 1)"

definition new_bucket :: bucket where
  "new_bucket = \<lparr> active = 0, lastStartedAt = 0, queue = [], timer = None \<rparr>"

definition initial :: limiter where
  "initial = \<lparr> buckets = (\<lambda>_. None), heap = (\<lambda>_. new_bucket), next_addr = 0, next_waiter = 0,
               timeouts = [], closures = [], rejected = [] \<rparr>"

definition getBucket :: "string \<Rightarrow> limiter \<Rightarrow> nat \<times> limiter" where
  "getBucket sessionId st =
     (case buckets st sessionId of
        Some existing \<Rightarrow> (existing, st)
      | None \<Rightarrow>
          (next_addr st,
           st\<lparr> buckets := (buckets st)(sessionId \<mapsto> next_addr st),
               heap := (heap st)(next_addr st := new_bucket),
               next_addr := Suc (next_addr st) \<rparr>))"

definition cleanupBucket :: "string \<Rightarrow> nat \<Rightarrow> limiter \<Rightarrow> limiter" where
  "cleanupBucket sessionId a st =
     (if active (heap st a) > 0 then st
      else if length (queue (heap st a)) > 0 then st
      else if timer (heap st a) \<noteq> None then st
      else st\<lparr> buckets := (buckets st)(sessionId := None) \<rparr>)"

text \<open>
  One grant inside \<^verbatim>\<open>processQueue\<close> (lines 280 to 296): the head of the queue is
  shifted, its timeout is cleared, \<^verbatim>\<open>active\<close> and \<^verbatim>\<open>lastStartedAt\<close> are updated and
  the promise is resolved with a new release closure.
\<close>

definition grant :: "int \<Rightarrow> string \<Rightarrow> nat \<Rightarrow> nat \<Rightarrow> limiter \<Rightarrow> limiter" where
  "grant now sessionId a waiter st =
     st\<lparr> heap := (heap st)(a := (heap st a)\<lparr> queue := tl (queue (heap st a)),
                                           active := active (heap st a) + 1,
                                           lastStartedAt := now \<rparr>),
         timeouts := filter (\<lambda>h. th_waiter h \<noteq> waiter) (timeouts st),
         closures := closures st @ [\<lparr> rc_waiter = waiter, rc_session = sessionId, rc_bucket = a,
                                     rc_released = False, rc_startedAt = now \<rparr>] \<rparr>"

text \<open>
  \<^verbatim>\<open>processQueue\<close> (lines 260 to 301). The two readings of \<^verbatim>\<open>Date.now()\<close> in one
  synchronous run (lines 268 and 285) are the single argument \<open>now\<close>.
\<close>

function processQueue :: "config \<Rightarrow> int \<Rightarrow> string \<Rightarrow> nat \<Rightarrow> limiter \<Rightarrow> limiter" where
  "processQueue c now sessionId a st =
     (if \<not> enabled c then st
      else if active (heap st a) \<ge> maxConcurrent c then st
      else if length (queue (heap st a)) = 0 then cleanupBucket sessionId a st
      else if max 0 (lastStartedAt (heap st a) + minIntervalMs c - now) > 0 then
        (if timer (heap st a) = None
         then st\<lparr> heap := (heap st)(a := (heap st a)\<lparr> timer :=
                 Some (sessionId, now + setTimeout_delay (max 0 (lastStartedAt (heap st a) + minIntervalMs c - now))) \<rparr>) \<rparr>
         else st)
      else (case queue (heap st a) of
              [] \<Rightarrow> st
            | waiter # _ \<Rightarrow>
                (let st' = grant now sessionId a waiter st
                 in if active (heap st' a) < maxConcurrent c
                    then processQueue c now sessionId a st'
                    else st')))"
  by pat_completeness auto
termination
  by (relation "measure (\<lambda>(c, now, sessionId, a, st). length (queue (heap st a)))")
     (auto simp: grant_def)

text \<open>
  \<^verbatim>\<open>acquireLocal\<close> (lines 212 to 244). The result is the overflow error thrown at line
  215, or the waiter whose promise is returned; the promise is settled later, by a grant
  (a release closure for the waiter in \<open>closures\<close>) or by the timeout (an entry of
  \<open>rejected\<close>).
\<close>

definition acquireLocal :: "config \<Rightarrow> int \<Rightarrow> string \<Rightarrow> limiter \<Rightarrow> (error + nat) \<times> limiter" where
  "acquireLocal c now sessionId st =
     (let (a, st1) = getBucket sessionId st in
      if int (length (queue (heap st1 a))) \<ge> maxQueuePerSession c
      then (Inl (QueueOverflow (maskSession sessionId) (maxQueuePerSession c)), st1)
      else
        (let waiter = next_waiter st1;
             st2 = st1\<lparr> next_waiter := Suc waiter,
                       timeouts := (if queueTimeoutMs c > 0
                                    then timeouts st1 @ [\<lparr> th_waiter = waiter, th_session = sessionId,
                                                           th_bucket = a, th_deadline = now + setTimeout_delay (queueTimeoutMs c) \<rparr>]
                                    else timeouts st1) \<rparr>;
             st3 = st2\<lparr> heap := (heap st2)(a := (heap st2 a)\<lparr> queue := queue (heap st2 a) @ [waiter] \<rparr>) \<rparr>
         in (Inr waiter, processQueue c now sessionId a st3)))"

text \<open>
  The release closure (lines 288 to 294), called through its position \<open>i\<close> in the list
  of closures handed out so far.
\<close>

definition release :: "config \<Rightarrow> int \<Rightarrow> nat \<Rightarrow> limiter \<Rightarrow> limiter" where
  "release c now i st =
     (if i \<ge> length (closures st) then st
      else if rc_released (closures st ! i) then st
      else
        (let cl = closures st ! i;
             a = rc_bucket cl;
             st1 = st\<lparr> closures := (closures st)[i := cl\<lparr> rc_released := True \<rparr>],
                      heap := (heap st)(a := (heap st a)\<lparr> active := max 0 (active (heap st a) - 1) \<rparr>) \<rparr>
         in cleanupBucket (rc_session cl) a (processQueue c now (rc_session cl) a st1)))"

text \<open>
  The timeout callback of a waiter (lines 228 to 238). It runs only for a handle that is
  still armed; a handle that has fired is no longer armed.
\<close>

definition waiterTimeout :: "config \<Rightarrow> nat \<Rightarrow> limiter \<Rightarrow> limiter" where
  "waiterTimeout c w st =
     (case find (\<lambda>h. th_waiter h = w) (timeouts st) of
        None \<Rightarrow> st
      | Some h \<Rightarrow>
          (let st0 = st\<lparr> timeouts := filter (\<lambda>h. th_waiter h \<noteq> w) (timeouts st) \<rparr>;
               a = th_bucket h
           in if w \<notin> set (queue (heap st0 a)) then st0
              else cleanupBucket (th_session h) a
                     (st0\<lparr> heap := (heap st0)(a := (heap st0 a)\<lparr> queue := remove1 w (queue (heap st0 a)) \<rparr>),
                           rejected := rejected st0 @
                             [(w, WaitTimeout (maskSession (th_session h)) (queueTimeoutMs c))] \<rparr>)))"

text \<open>The callback of the retry timer of the bucket at \<open>a\<close> (lines 272 to 275).\<close>

definition retryTimer :: "config \<Rightarrow> int \<Rightarrow> nat \<Rightarrow> limiter \<Rightarrow> limiter" where
  "retryTimer c now a st =
     (case timer (heap st a) of
        None \<Rightarrow> st
      | Some (sessionId, due) \<Rightarrow>
          processQueue c now sessionId a (st\<lparr> heap := (heap st)(a := (heap st a)\<lparr> timer := None \<rparr>) \<rparr>))"

text \<open>
  What can happen to a limiter in local mode: a caller invokes \<^verbatim>\<open>acquire\<close> (the guard of
  line 96, then \<^verbatim>\<open>acquireLocal\<close>), a caller invokes a release closure it was given, a
  waiter's timeout fires, or a retry timer fires. A timer does not fire before it is due,
  that is, before the delay that the runtime applies (\<open>setTimeout_delay\<close>) has passed
  since it was set. An event that cannot happen leaves the state as it is. Each event
  carries the clock reading at which it runs.
\<close>

datatype event =
    Acquire string
  | Release nat
  | WaiterTimeout nat
  | RetryTimer nat

fun fire :: "config \<Rightarrow> limiter \<Rightarrow> int \<times> event \<Rightarrow> limiter" where
  "fire c st (now, Acquire sessionId) =
     (if \<not> enabled c \<or> sessionId = [] then st else snd (acquireLocal c now sessionId st))"
| "fire c st (now, Release i) = release c now i st"
| "fire c st (now, WaiterTimeout w) =
     (case find (\<lambda>h. th_waiter h = w) (timeouts st) of
        None \<Rightarrow> st
      | Some h \<Rightarrow> if now \<ge> th_deadline h then waiterTimeout c w st else st)"
| "fire c st (now, RetryTimer a) =
     (case timer (heap st a) of
        None \<Rightarrow> st
      | Some (sessionId, due) \<Rightarrow> if now \<ge> due then retryTimer c now a st else st)"

definition run :: "config \<Rightarrow> (int \<times> event) list \<Rightarrow> limiter" where
  "run c evs = foldl (fire c) initial evs"


subsection \<open>The invariant of the local mode\<close>

text \<open>
  \<open>unreleased_at a cls\<close> counts the release closures for the bucket at \<open>a\<close> that have
  not been called yet: the acquisitions granted from that bucket and still held.
  \<open>idle\<close> is the condition under which \<^verbatim>\<open>cleanupBucket\<close> deletes a bucket, and
  \<open>registered\<close> says that some credential maps to the bucket in the registry.
\<close>

definition unreleased_at :: "nat \<Rightarrow> release_closure list \<Rightarrow> nat" where
  "unreleased_at a cls = length (filter (\<lambda>cl. rc_bucket cl = a \<and> \<not> rc_released cl) cls)"


definition idle :: "bucket \<Rightarrow> bool" where
  "idle b = (\<not> active b > 0 \<and> \<not> length (queue b) > 0 \<and> timer b = None)"

definition registered :: "limiter \<Rightarrow> nat \<Rightarrow> bool" where
  "registered st a = (\<exists>s. buckets st s = Some a)"

definition reg_iff :: "limiter \<Rightarrow> nat \<Rightarrow> bool" where
  "reg_iff st a = (registered st a \<longleftrightarrow> \<not> idle (heap st a))"

definition inv_alloc :: "limiter \<Rightarrow> bool" where
  "inv_alloc st = (\<forall>s a. buckets st s = Some a \<longrightarrow> a < next_addr st)"

definition inv_inj :: "limiter \<Rightarrow> bool" where
  "inv_inj st = (\<forall>s s' a. buckets st s = Some a \<longrightarrow> buckets st s' = Some a \<longrightarrow> s = s')"

definition inv_count :: "limiter \<Rightarrow> bool" where
  "inv_count st = (\<forall>a. active (heap st a) = int (unreleased_at a (closures st)))"

definition inv_qlen :: "config \<Rightarrow> limiter \<Rightarrow> bool" where
  "inv_qlen c st = (\<forall>a. int (length (queue (heap st a))) \<le> maxQueuePerSession c)"

definition inv_active :: "config \<Rightarrow> limiter \<Rightarrow> bool" where
  "inv_active c st = (\<forall>a. active (heap st a) \<le> maxConcurrent c)"

definition inv_closures :: "limiter \<Rightarrow> bool" where
  "inv_closures st =
     (\<forall>cl \<in> set (closures st). \<not> rc_released cl \<longrightarrow> buckets st (rc_session cl) = Some (rc_bucket cl))"

definition inv_timeouts :: "limiter \<Rightarrow> bool" where
  "inv_timeouts st =
     (\<forall>h \<in> set (timeouts st). buckets st (th_session h) = Some (th_bucket h) \<and>
                               th_waiter h \<in> set (queue (heap st (th_bucket h))))"

definition inv_timer :: "limiter \<Rightarrow> bool" where
  "inv_timer st = (\<forall>a s t. timer (heap st a) = Some (s, t) \<longrightarrow> buckets st s = Some a)"

definition pre_inv :: "config \<Rightarrow> limiter \<Rightarrow> bool" where
  "pre_inv c st =
     (inv_alloc st \<and> inv_inj st \<and> inv_count st \<and> inv_qlen c st \<and> inv_active c st \<and>
      inv_closures st \<and> inv_timeouts st \<and> inv_timer st)"

definition limiter_inv :: "config \<Rightarrow> limiter \<Rightarrow> bool" where
  "limiter_inv c st = (pre_inv c st \<and> (\<forall>a. reg_iff st a))"


text \<open>
  Spacing inside one bucket object: every grant of a bucket started no later than the
  bucket's \<^verbatim>\<open>lastStartedAt\<close>, and of two grants of one bucket the later one started at
  least \<^verbatim>\<open>minIntervalMs\<close> after the earlier one.
\<close>

definition sp_inv :: "config \<Rightarrow> limiter \<Rightarrow> bool" where
  "sp_inv c st =
     ((\<forall>cl \<in> set (closures st). rc_bucket cl < next_addr st \<and>
                                rc_startedAt cl \<le> lastStartedAt (heap st (rc_bucket cl))) \<and>
      (\<forall>i j. i < j \<longrightarrow> j < length (closures st) \<longrightarrow>
             rc_bucket (closures st ! i) = rc_bucket (closures st ! j) \<longrightarrow>
             rc_startedAt (closures st ! i) + minIntervalMs c \<le> rc_startedAt (closures st ! j)))"

section \<open>SessionRateLimiter: distributed mode\<close>

text \<open>
  The shared store holds, under each key, a number and the time to live that was last
  set for the key (\<open>None\<close>: the key does not expire). The scripts read numbers with
  \<^verbatim>\<open>tonumber(redis.call("GET", key) or "0")\<close>. The store runs a script as one step,
  so a script is a function from the store to a reply and the next store.
\<close>

record redis_entry =
  re_value :: int
  re_px :: "int option"

type_synonym redis = "string \<Rightarrow> redis_entry option"

definition GET_or_0 :: "redis \<Rightarrow> string \<Rightarrow> int" where
  "GET_or_0 db k = (case db k of Some e \<Rightarrow> re_value e | None \<Rightarrow> 0)"

definition SET_PX :: "string \<Rightarrow> int \<Rightarrow> int \<Rightarrow> redis \<Rightarrow> redis" where
  "SET_PX k v px db = db(k \<mapsto> \<lparr> re_value = v, re_px = Some px \<rparr>)"

definition INCR :: "string \<Rightarrow> redis \<Rightarrow> int \<times> redis" where
  "INCR k db =
     (case db k of
        Some e \<Rightarrow> (re_value e + 1, db(k \<mapsto> e\<lparr> re_value := re_value e + 1 \<rparr>))
      | None \<Rightarrow> (1, db(k \<mapsto> \<lparr> re_value = 1, re_px = None \<rparr>)))"

definition DECR :: "string \<Rightarrow> redis \<Rightarrow> int \<times> redis" where
  "DECR k db =
     (case db k of
        Some e \<Rightarrow> (re_value e - 1, db(k \<mapsto> e\<lparr> re_value := re_value e - 1 \<rparr>))
      | None \<Rightarrow> (- 1, db(k \<mapsto> \<lparr> re_value = - 1, re_px = None \<rparr>)))"

definition PEXPIRE :: "string \<Rightarrow> int \<Rightarrow> redis \<Rightarrow> redis" where
  "PEXPIRE k px db = (case db k of Some e \<Rightarrow> db(k \<mapsto> e\<lparr> re_px := Some px \<rparr>) | None \<Rightarrow> db)"

definition DEL :: "string \<Rightarrow> redis \<Rightarrow> redis" where
  "DEL k db = db(k := None)"

text \<open>The reply of the acquire script: \<^verbatim>\<open>{granted, reason, waitMs, inflight}\<close>.\<close>

record reply =
  granted_flag :: int
  reason :: string
  wait_ms :: int
  inflight_now :: int

definition REDIS_ACQUIRE_SCRIPT ::
  "string \<Rightarrow> string \<Rightarrow> int \<Rightarrow> int \<Rightarrow> int \<Rightarrow> int \<Rightarrow> int \<Rightarrow> redis \<Rightarrow> reply \<times> redis" where
  "REDIS_ACQUIRE_SCRIPT inflightKey intervalKey nowMs minInterval maxConc inflightTtl intervalTtl db =
     (let inflight = GET_or_0 db inflightKey in
      if inflight \<ge> maxConc
      then (\<lparr> granted_flag = 0, reason = ''concurrency'', wait_ms = 0, inflight_now = inflight \<rparr>, db)
      else
        (let nextAllowedAt = GET_or_0 db intervalKey in
         if nextAllowedAt > nowMs
         then (\<lparr> granted_flag = 0, reason = ''interval'', wait_ms = nextAllowedAt - nowMs,
                 inflight_now = inflight \<rparr>, db)
         else
           (let db1 = SET_PX intervalKey (nowMs + minInterval) intervalTtl db;
                (newInflight, db2) = INCR inflightKey db1;
                db3 = PEXPIRE inflightKey inflightTtl db2
            in (\<lparr> granted_flag = 1, reason = ''ok'', wait_ms = 0, inflight_now = newInflight \<rparr>, db3))))"

definition REDIS_RELEASE_SCRIPT :: "string \<Rightarrow> redis \<Rightarrow> int \<times> redis" where
  "REDIS_RELEASE_SCRIPT inflightKey db =
     (let inflight = GET_or_0 db inflightKey in
      if inflight \<le> 1 then (0, DEL inflightKey db) else DECR inflightKey db)"

definition REDIS_KEY_PREFIX :: string where
  "REDIS_KEY_PREFIX = ''jimeng:session_rl''"

text \<open>\<^verbatim>\<open>getRedisKeys\<close>; the SHA-1 digest in hexadecimal is the parameter \<open>sha1\<close>.\<close>

definition getRedisKeys :: "(string \<Rightarrow> string) \<Rightarrow> string \<Rightarrow> string \<times> string" where
  "getRedisKeys sha1 sessionId =
     (REDIS_KEY_PREFIX @ '':inflight:'' @ sha1 sessionId, REDIS_KEY_PREFIX @ '':next:'' @ sha1 sessionId)"

text \<open>
  One pass of the loop of \<^verbatim>\<open>acquireDistributed\<close> (lines 162 to 209) sees what the
  environment supplies: the clock at line 163, the outcome of \<^verbatim>\<open>redis.eval\<close> (an
  exception with its message, or the store on which the script runs), and the clock at
  line 197. The two calls of \<^verbatim>\<open>sleep\<close> only let time pass, which the next pass reads
  from its own clock. The list of passes is the fuel of the loop: \<open>None\<close> says that
  the loop is still polling after the last pass supplied.
\<close>

record poll =
  p_now :: int
  p_eval :: "string + redis"
  p_after :: int

fun poll_loop ::
  "config \<Rightarrow> string \<Rightarrow> string \<times> string \<Rightarrow> int \<Rightarrow> int \<Rightarrow> poll list \<Rightarrow> (error + string \<times> redis) option" where
  "poll_loop c sessionId keys deadlineAt intervalTtlMs [] = None"
| "poll_loop c sessionId keys deadlineAt intervalTtlMs (p # ps) =
     (if p_now p \<ge> deadlineAt then Some (Inl (WaitTimeout (maskSession sessionId) (queueTimeoutMs c)))
      else
        (case p_eval p of
           Inl msg \<Rightarrow> Some (Inl (RedisError msg))
         | Inr db \<Rightarrow>
             (let (result, db') = REDIS_ACQUIRE_SCRIPT (fst keys) (snd keys) (p_now p) (minIntervalMs c)
                                    (maxConcurrent c) (inflightTtlMs c) intervalTtlMs db
              in if granted_flag result = 1 then Some (Inr (fst keys, db'))
                 else if deadlineAt - p_after p \<le> 0
                 then Some (Inl (WaitTimeout (maskSession sessionId) (queueTimeoutMs c)))
                 else poll_loop c sessionId keys deadlineAt intervalTtlMs ps)))"

text \<open>A pass in which \<^verbatim>\<open>redis.eval\<close> returns and the script does not grant.\<close>

definition denied :: "config \<Rightarrow> string \<times> string \<Rightarrow> int \<Rightarrow> poll \<Rightarrow> bool" where
  "denied c keys ttl p =
     (case p_eval p of
        Inl msg \<Rightarrow> False
      | Inr db \<Rightarrow> granted_flag (fst (REDIS_ACQUIRE_SCRIPT (fst keys) (snd keys) (p_now p) (minIntervalMs c)
                                      (maxConcurrent c) (inflightTtlMs c) ttl db)) \<noteq> 1)"

definition acquireDistributed ::
  "config \<Rightarrow> (string \<Rightarrow> string) \<Rightarrow> string \<Rightarrow> int \<Rightarrow> poll list \<Rightarrow> (error + string \<times> redis) option" where
  "acquireDistributed c sha1 sessionId startedAt polls =
     poll_loop c sessionId (getRedisKeys sha1 sessionId) (startedAt + queueTimeoutMs c)
       (max (minIntervalMs c * 50) 60000) polls"



text \<open>
  \<^verbatim>\<open>acquire\<close> (lines 95 to 110). \<open>client\<close> says whether \<^verbatim>\<open>getRedisClient\<close> returned a
  client; \<open>now\<close> is the clock when \<^verbatim>\<open>acquireDistributed\<close> starts and \<open>nowLocal\<close> the
  clock when \<^verbatim>\<open>acquireLocal\<close> runs. The result is what the caller gets: a no-op
  release, a distributed grant, or the outcome of \<^verbatim>\<open>acquireLocal\<close>; with it come the
  limiter state and the warnings logged by \<^verbatim>\<open>acquire\<close>. \<open>None\<close> says that the
  distributed loop is still polling.
\<close>

datatype acquired =
    Passthrough
  | Distributed string redis
  | Local "error + nat"

record acquire_result =
  ar_outcome :: "acquired option"
  ar_state :: limiter
  ar_warnings :: "error list"

definition acquire ::
  "config \<Rightarrow> (string \<Rightarrow> string) \<Rightarrow> bool \<Rightarrow> int \<Rightarrow> int \<Rightarrow> string \<Rightarrow> poll list \<Rightarrow> limiter \<Rightarrow> acquire_result" where
  "acquire c sha1 client now nowLocal sessionId polls st =
     (if \<not> enabled c \<or> sessionId = [] then \<lparr> ar_outcome = Some Passthrough, ar_state = st, ar_warnings = [] \<rparr>
      else if client then
        (case acquireDistributed c sha1 sessionId now polls of
           None \<Rightarrow> \<lparr> ar_outcome = None, ar_state = st, ar_warnings = [] \<rparr>
         | Some (Inr (key, db)) \<Rightarrow> \<lparr> ar_outcome = Some (Distributed key db), ar_state = st, ar_warnings = [] \<rparr>
         | Some (Inl err) \<Rightarrow>
             \<lparr> ar_outcome = Some (Local (fst (acquireLocal c nowLocal sessionId st))),
               ar_state = snd (acquireLocal c nowLocal sessionId st),
               ar_warnings = [err] \<rparr>)
      else \<lparr> ar_outcome = Some (Local (fst (acquireLocal c nowLocal sessionId st))),
             ar_state = snd (acquireLocal c nowLocal sessionId st),
             ar_warnings = [] \<rparr>)"





text \<open>
  The admission record of a credential in the store: the entries under its two keys.
\<close>

definition admission_record :: "(string \<Rightarrow> string) \<Rightarrow> string \<Rightarrow> redis \<Rightarrow> redis_entry option \<times> redis_entry option" where
  "admission_record sha1 sessionId db =
     (db (fst (getRedisKeys sha1 sessionId)), db (snd (getRedisKeys sha1 sessionId)))"


section \<open>The video route: POST /v1/videos/generations\<close>

text \<open>
  The handler of the route (the source file that declares the prefix
  \<^verbatim>\<open>/v1/videos\<close>). A value of the request body is a \<open>json\<close>; \<open>JFrac\<close> stands for
  a finite number that is not an integer and \<open>JNaN\<close> for NaN. An object
  (the body, the headers) is an association list, and a key that is absent reads as
  \<open>JUndefined\<close>.
\<close>

datatype json =
    JUndefined
  | JNull
  | JBool bool
  | JNum int
  | JFrac
  | JNaN
  | JStr string
  | JArr "json list"

definition field :: "(string \<times> json) list \<Rightarrow> string \<Rightarrow> json" where
  "field obj k = (case map_of obj k of Some v \<Rightarrow> v | None \<Rightarrow> JUndefined)"

fun truthy :: "json \<Rightarrow> bool" where
  "truthy JUndefined = False"
| "truthy JNull = False"
| "truthy (JBool b) = b"
| "truthy (JNum n) = (n \<noteq> 0)"
| "truthy JFrac = True"
| "truthy JNaN = False"
| "truthy (JStr s) = (s \<noteq> [])"
| "truthy (JArr xs) = True"

definition js_or :: "json \<Rightarrow> json \<Rightarrow> json" where
  "js_or a b = (if truthy a then a else b)"

definition dflt :: "json \<Rightarrow> json \<Rightarrow> json" where
  "dflt v d = (if v = JUndefined then d else v)"

fun isString :: "json \<Rightarrow> bool" where
  "isString (JStr s) = True"
| "isString _ = False"

fun isArray :: "json \<Rightarrow> bool" where
  "isArray (JArr xs) = True"
| "isArray _ = False"

fun isBoolean :: "json \<Rightarrow> bool" where
  "isBoolean (JBool b) = True"
| "isBoolean _ = False"

fun isFinite :: "json \<Rightarrow> bool" where
  "isFinite (JNum n) = True"
| "isFinite JFrac = True"
| "isFinite _ = False"

definition startsWith :: "string \<Rightarrow> string \<Rightarrow> bool" where
  "startsWith s p = (take (length p) s = p)"

fun js_length :: "json \<Rightarrow> nat" where
  "js_length (JArr xs) = length xs"
| "js_length (JStr s) = length s"
| "js_length _ = 0"

definition MAX_STANDARD_INPUT_IMAGES :: nat where
  "MAX_STANDARD_INPUT_IMAGES = 2"

definition MAX_OMNI_MATERIALS :: nat where
  "MAX_OMNI_MATERIALS = 9"

definition isDigits :: "string \<Rightarrow> bool" where
  "isDigits ds = (ds \<noteq> [] \<and> (\<forall>ch \<in> set ds. ch \<in> set ''0123456789''))"

definition decimal :: "string \<Rightarrow> nat" where
  "decimal ds = foldl (\<lambda>n ch. 10 * n + (of_char ch - 48)) 0 ds"

text \<open>
  \<^verbatim>\<open>isOmniMaterialField\<close> (lines 32 to 44): the field name matches
  \<^verbatim>\<open>/^image_file_(\d+)$/\<close> with an index from 1 to 9, or \<^verbatim>\<open>/^video_file(?:_(\d+))?$/\<close>
  with no index or an index from 1 to 9.
\<close>

definition isOmniMaterialField :: "string \<Rightarrow> bool" where
  "isOmniMaterialField fieldName =
     (if startsWith fieldName ''image_file_'' \<and> isDigits (drop 11 fieldName)
      then 1 \<le> decimal (drop 11 fieldName) \<and> decimal (drop 11 fieldName) \<le> MAX_OMNI_MATERIALS
      else if fieldName = ''video_file'' then True
      else if startsWith fieldName ''video_file_'' \<and> isDigits (drop 11 fieldName)
      then 1 \<le> decimal (drop 11 fieldName) \<and> decimal (drop 11 fieldName) \<le> MAX_OMNI_MATERIALS
      else False)"

text \<open>
  \<^verbatim>\<open>request.files\<close> maps a field name to its uploaded files; \<open>None\<close> is an entry that
  is not a file. \<^verbatim>\<open>collectUploadedFileEntries\<close> (lines 18 to 30) lists the field name
  of every file.
\<close>

definition collectUploadedFileEntries :: "(string \<times> string option list) list \<Rightarrow> (string \<times> string) list" where
  "collectUploadedFileEntries files =
     concat (map (\<lambda>(fieldName, fileList). map (\<lambda>f. (fieldName, the f)) (filter (\<lambda>f. f \<noteq> None) fileList)) files)"

definition collectOmniBodyMaterialUrls :: "(string \<times> json) list \<Rightarrow> (string \<times> string) list" where
  "collectOmniBodyMaterialUrls body =
     concat (map (\<lambda>(k, v). case v of
                               JStr u \<Rightarrow> if startsWith u ''http'' \<and> isOmniMaterialField k then [(k, u)] else []
                             | _ \<Rightarrow> []) body)"

record request =
  rq_headers :: "(string \<times> json) list"
  rq_body :: "(string \<times> json) list"
  rq_files :: "(string \<times> string option list) list"

text \<open>What the generator returns, and the two shapes of the result (lines 220 to 247).\<close>

record video =
  v_url :: string
  v_history_id :: string
  v_item_id :: string
  v_preview_url :: string
  v_hq_url :: string

record result_item =
  ri_url :: "string option"
  ri_b64_json :: "string option"
  ri_revised_prompt :: json
  ri_history_id :: string
  ri_item_id :: string
  ri_preview_url :: string
  ri_hq_url :: string

record result_data =
  rd_created :: int
  rd_data :: "result_item list"

text \<open>The options object passed to \<^verbatim>\<open>generateVideo\<close> (lines 201 to 216).\<close>

record options =
  o_ratio :: json
  o_resolution :: json
  o_duration :: json
  o_filePaths :: json
  o_files :: "(string \<times> string option list) list"
  o_materialUrls :: "(string \<times> string) list"
  o_functionMode :: json
  o_msToken :: json
  o_a_bogus :: json
  o_webId :: json
  o_os :: json
  o_userAgent :: json
  o_secChUaPlatform :: json
  o_referer :: json

text \<open>
  The collaborators of the handler that are not part of it: \<^verbatim>\<open>parseInt\<close> (\<open>None\<close> for
  NaN), the constant \<^verbatim>\<open>DEFAULT_MODEL\<close>, the credential that \<^verbatim>\<open>_.sample(tokenSplit(...))\<close>
  picks, the generator \<^verbatim>\<open>generateVideo\<close> (an exception with its message, or a video),
  \<^verbatim>\<open>parseProxyFromToken\<close>, \<^verbatim>\<open>util.fetchFileBASE64\<close> and the clocks
  \<^verbatim>\<open>util.unixTimestamp()\<close> and \<^verbatim>\<open>Date.now()\<close>.
\<close>

record externals =
  x_parseInt :: "string \<Rightarrow> int option"
  x_DEFAULT_MODEL :: string
  x_sample_token :: "json \<Rightarrow> string"
  x_generateVideo :: "json \<Rightarrow> json \<Rightarrow> options \<Rightarrow> string \<Rightarrow> string + video"
  x_parseProxyFromToken :: "string \<Rightarrow> string option"
  x_fetchFileBASE64 :: "string \<Rightarrow> string option \<Rightarrow> string + string"
  x_unixTimestamp :: int
  x_now :: int

subsection \<open>The task store\<close>

datatype task_type = Image | Composition | Video

datatype task_status = Pending | Queued | Processing | Completed | Failed | Cancelled

record task =
  t_id :: nat
  t_type :: task_type
  t_status :: task_status
  t_model :: json
  t_prompt :: json
  t_callback_url :: json
  t_result :: "result_data option"
  t_error :: "string option"
  t_progress :: "string option"
  t_created_at :: int
  t_completed_at :: "int option"

record task_store =
  tasks :: "nat \<Rightarrow> task option"
  next_id :: nat

text \<open>The fields given to \<^verbatim>\<open>taskStore.create\<close> and the partial record given to \<^verbatim>\<open>taskStore.update\<close>.\<close>

record create_fields =
  cf_type :: task_type
  cf_status :: task_status
  cf_callback_url :: json
  cf_model :: json
  cf_prompt :: json

record partial_task =
  u_status :: "task_status option"
  u_result :: "result_data option"
  u_error :: "string option"
  u_progress :: "string option"
  u_completed_at :: "int option"

definition no_change :: partial_task where
  "no_change = \<lparr> u_status = None, u_result = None, u_error = None, u_progress = None, u_completed_at = None \<rparr>"

text \<open>
  Modelled from the spec: \<^verbatim>\<open>taskStore.create\<close> of \<^verbatim>\<open>src/lib/task-store.ts\<close>, which is
  not among the sources. The spec (4.2): \<^emph>\<open>create(fields) -> Task assigns a fresh id,
  status=pending, created_at=now, returns the full record\<close>.
\<close>

definition taskStore_create :: "create_fields \<Rightarrow> int \<Rightarrow> task_store \<Rightarrow> task \<times> task_store" where
  "taskStore_create given now store =
     (let t = \<lparr> t_id = next_id store, t_type = cf_type given, t_status = Pending,
                 t_model = cf_model given, t_prompt = cf_prompt given,
                 t_callback_url = cf_callback_url given, t_result = None, t_error = None,
                 t_progress = None, t_created_at = now, t_completed_at = None \<rparr>
      in (t, store\<lparr> tasks := (tasks store)(next_id store \<mapsto> t), next_id := Suc (next_id store) \<rparr>))"

text \<open>
  Modelled from the spec: \<^verbatim>\<open>taskStore.get\<close> and \<^verbatim>\<open>taskStore.update\<close> of
  \<^verbatim>\<open>src/lib/task-store.ts\<close>, which is not among the sources. The spec (4.2):
  \<^emph>\<open>get(id) -> Task|absent. update(id, partial) merges the given fields into the
  existing record (status/result/error/progress/completed_at) and persists the merged
  record\<close>. The spec does not say what \<^verbatim>\<open>update\<close> does for an id that has no record;
  here it leaves the store as it is.
\<close>

definition taskStore_get :: "nat \<Rightarrow> task_store \<Rightarrow> task option" where
  "taskStore_get tid store = tasks store tid"

definition merge :: "partial_task \<Rightarrow> task \<Rightarrow> task" where
  "merge u t =
     t\<lparr> t_status := (case u_status u of Some v \<Rightarrow> v | None \<Rightarrow> t_status t),
        t_result := (case u_result u of Some v \<Rightarrow> Some v | None \<Rightarrow> t_result t),
        t_error := (case u_error u of Some v \<Rightarrow> Some v | None \<Rightarrow> t_error t),
        t_progress := (case u_progress u of Some v \<Rightarrow> Some v | None \<Rightarrow> t_progress t),
        t_completed_at := (case u_completed_at u of Some v \<Rightarrow> Some v | None \<Rightarrow> t_completed_at t) \<rparr>"

definition taskStore_update :: "nat \<Rightarrow> partial_task \<Rightarrow> task_store \<Rightarrow> task_store" where
  "taskStore_update tid u store =
     (case tasks store tid of
        None \<Rightarrow> store
      | Some t \<Rightarrow> store\<lparr> tasks := (tasks store)(tid \<mapsto> merge u t) \<rparr>)"


subsection \<open>The handler\<close>

datatype herror =
    Invalid string
  | TooManyInputImages
  | TooManyMaterialUrls
  | TooManyUploads bool
  | UnsupportedOmniField
  | OmniNeedsMaterial
  | Thrown string

text \<open>
  The closure handed to \<^verbatim>\<open>taskQueue.enqueue\<close> (lines 195 to 267), as the variables it
  captured.
\<close>

record job =
  j_task :: nat
  j_model :: json
  j_prompt :: json
  j_options :: options
  j_response_format :: json
  j_token :: string

datatype response =
    AsyncAccepted nat string
  | SyncResult result_data

definition undefinedOrString :: "json \<Rightarrow> bool" where
  "undefinedOrString v = (v = JUndefined \<or> isString v)"

definition toNumber :: "(string \<Rightarrow> int option) \<Rightarrow> string \<Rightarrow> json" where
  "toNumber parseInt s = (case parseInt s of Some n \<Rightarrow> JNum n | None \<Rightarrow> JNaN)"

definition validDuration :: "(string \<Rightarrow> int option) \<Rightarrow> bool \<Rightarrow> json \<Rightarrow> bool" where
  "validDuration parseInt isMultiPart v =
     (if v = JUndefined then True
      else
        (let num = (if isMultiPart \<and> isString v then Some (toNumber parseInt (case v of JStr s \<Rightarrow> s | _ \<Rightarrow> []))
                    else if isFinite v then Some v
                    else None)
         in case num of
              None \<Rightarrow> False
            | Some n \<Rightarrow> (case n of JNum k \<Rightarrow> 4 \<le> k \<and> k \<le> 15 | _ \<Rightarrow> False)))"

text \<open>
  The chain of validators of lines 69 to 106: each pair is a key of the request with the
  verdict of its validator, in the order of the source.
\<close>

definition validations :: "externals \<Rightarrow> bool \<Rightarrow> request \<Rightarrow> (string \<times> bool) list" where
  "validations ext isMultiPart r =
     (let b = field (rq_body r) in
      [(''body.model'', undefinedOrString (b ''model'')),
       (''body.prompt'', isString (b ''prompt'')),
       (''body.ratio'', undefinedOrString (b ''ratio'')),
       (''body.resolution'', undefinedOrString (b ''resolution'')),
       (''body.duration'', validDuration (x_parseInt ext) isMultiPart (b ''duration'')),
       (''body.file_paths'', b ''file_paths'' = JUndefined \<or> isArray (b ''file_paths'')),
       (''body.filePaths'', b ''filePaths'' = JUndefined \<or> isArray (b ''filePaths'')),
       (''body.functionMode'', b ''functionMode'' = JUndefined \<or>
           (isString (b ''functionMode'') \<and>
            b ''functionMode'' \<in> set [JStr ''first_last_frames'', JStr ''omni_reference''])),
       (''body.response_format'', undefinedOrString (b ''response_format'')),
       (''body.async'', b ''async'' = JUndefined \<or> isBoolean (b ''async'') \<or>
           b ''async'' = JStr ''true'' \<or> b ''async'' = JStr ''false''),
       (''body.callback_url'', b ''callback_url'' = JUndefined \<or>
           (isString (b ''callback_url'') \<and>
            startsWith (case b ''callback_url'' of JStr u \<Rightarrow> u | _ \<Rightarrow> []) ''http'')),
       (''body.msToken'', undefinedOrString (b ''msToken'')),
       (''body.ms_token'', undefinedOrString (b ''ms_token'')),
       (''body.a_bogus'', undefinedOrString (b ''a_bogus'')),
       (''body.aBogus'', undefinedOrString (b ''aBogus'')),
       (''body.webId'', undefinedOrString (b ''webId'') \<or> isFinite (b ''webId'')),
       (''body.web_id'', undefinedOrString (b ''web_id'') \<or> isFinite (b ''web_id'')),
       (''body.os'', undefinedOrString (b ''os'')),
       (''body.userAgent'', undefinedOrString (b ''userAgent'')),
       (''body.user_agent'', undefinedOrString (b ''user_agent'')),
       (''body.secChUaPlatform'', undefinedOrString (b ''secChUaPlatform'')),
       (''body.sec_ch_ua_platform'', undefinedOrString (b ''sec_ch_ua_platform'')),
       (''body.referer'', undefinedOrString (b ''referer'')),
       (''headers.authorization'', isString (field (rq_headers r) ''authorization''))])"

text \<open>
  Modelled from the spec: \<^verbatim>\<open>Request.validate\<close> of \<^verbatim>\<open>src/lib/request/Request.ts\<close>,
  which is not among the sources. The spec (7): \<^emph>\<open>ValidationError (malformed
  submission): rejected synchronously, no task created\<close>. The first key of the chain
  whose validator fails is the error thrown.
\<close>

definition validate :: "(string \<times> bool) list \<Rightarrow> herror option" where
  "validate checks = (case filter (\<lambda>(k, ok). \<not> ok) checks of [] \<Rightarrow> None | (k, ok) # _ \<Rightarrow> Some (Invalid k))"

definition isMultiPart :: "request \<Rightarrow> bool" where
  "isMultiPart r =
     (case js_or (field (rq_headers r) ''content-type'') (JStr []) of
        JStr contentType \<Rightarrow> startsWith contentType ''multipart/form-data''
      | _ \<Rightarrow> False)"

text \<open>The effective flag \<^verbatim>\<open>isAsync\<close> (lines 181 to 183).\<close>

definition isAsync :: "request \<Rightarrow> bool" where
  "isAsync r =
     (if isMultiPart r \<and> isString (field (rq_body r) ''async'')
      then field (rq_body r) ''async'' = JStr ''true''
      else field (rq_body r) ''async'' = JBool True)"

definition functionMode :: "request \<Rightarrow> json" where
  "functionMode r = js_or (field (rq_body r) ''functionMode'') (JStr ''first_last_frames'')"

definition isOmniMode :: "request \<Rightarrow> bool" where
  "isOmniMode r = (functionMode r = JStr ''omni_reference'')"

definition finalFilePaths :: "request \<Rightarrow> json" where
  "finalFilePaths r =
     (let file_paths = dflt (field (rq_body r) ''file_paths'') (JArr []);
          filePaths = dflt (field (rq_body r) ''filePaths'') (JArr [])
      in if js_length filePaths > 0 then filePaths else file_paths)"

definition materialUrls :: "request \<Rightarrow> (string \<times> string) list" where
  "materialUrls r = (if isOmniMode r then collectOmniBodyMaterialUrls (rq_body r) else [])"

text \<open>The checks of lines 143 to 168, in their order; the first that fails throws.\<close>

definition guards :: "request \<Rightarrow> herror option" where
  "guards r =
     (let uploadedFileEntries = collectUploadedFileEntries (rq_files r);
          omniUploadedEntries = filter (\<lambda>entry. isOmniMaterialField (fst entry)) uploadedFileEntries;
          uploadedMaterialCount = (if isOmniMode r then length omniUploadedEntries else length uploadedFileEntries);
          maxUploadedFiles = (if isOmniMode r then MAX_OMNI_MATERIALS else MAX_STANDARD_INPUT_IMAGES)
      in if \<not> isOmniMode r \<and> js_length (finalFilePaths r) > MAX_STANDARD_INPUT_IMAGES then Some TooManyInputImages
         else if isOmniMode r \<and> js_length (finalFilePaths r) > MAX_OMNI_MATERIALS then Some TooManyMaterialUrls
         else if uploadedMaterialCount > maxUploadedFiles then Some (TooManyUploads (isOmniMode r))
         else if isOmniMode r \<and> length uploadedFileEntries > length omniUploadedEntries then Some UnsupportedOmniField
         else if isOmniMode r \<and> uploadedMaterialCount = 0 \<and> \<not> js_length (finalFilePaths r) > 0
                 \<and> \<not> length (materialUrls r) > 0 then Some OmniNeedsMaterial
         else None)"

definition finalDuration :: "externals \<Rightarrow> request \<Rightarrow> json" where
  "finalDuration ext r =
     (let duration = dflt (field (rq_body r) ''duration'') (JNum 5)
      in case duration of
           JStr s \<Rightarrow> if isMultiPart r then toNumber (x_parseInt ext) s else duration
         | _ \<Rightarrow> duration)"

definition generation_options :: "externals \<Rightarrow> request \<Rightarrow> options" where
  "generation_options ext r =
     (let b = field (rq_body r) in
      \<lparr> o_ratio = dflt (b ''ratio'') (JStr ''1:1''),
        o_resolution = dflt (b ''resolution'') (JStr ''720p''),
        o_duration = finalDuration ext r,
        o_filePaths = finalFilePaths r,
        o_files = rq_files r,
        o_materialUrls = materialUrls r,
        o_functionMode = functionMode r,
        o_msToken = js_or (b ''msToken'') (b ''ms_token''),
        o_a_bogus = js_or (b ''a_bogus'') (b ''aBogus''),
        o_webId = js_or (b ''webId'') (b ''web_id''),
        o_os = b ''os'',
        o_userAgent = js_or (b ''userAgent'') (b ''user_agent''),
        o_secChUaPlatform = js_or (b ''secChUaPlatform'') (b ''sec_ch_ua_platform''),
        o_referer = b ''referer'' \<rparr>)"

text \<open>
  The result in the requested format (lines 220 to 247 and 296 to 324):
  \<^verbatim>\<open>fetchFileBASE64\<close> may throw, and then so does the formatting.
\<close>

definition format_result :: "externals \<Rightarrow> json \<Rightarrow> json \<Rightarrow> string \<Rightarrow> video \<Rightarrow> string + result_data" where
  "format_result ext response_format prompt token generatedVideo =
     (if response_format = JStr ''b64_json'' then
        (let proxyUrl = (case x_parseProxyFromToken ext token of
                           Some u \<Rightarrow> if u = [] then None else Some u
                         | None \<Rightarrow> None)
         in case x_fetchFileBASE64 ext (v_url generatedVideo) proxyUrl of
              Inl msg \<Rightarrow> Inl msg
            | Inr videoBase64 \<Rightarrow>
                Inr \<lparr> rd_created = x_unixTimestamp ext,
                      rd_data = [\<lparr> ri_url = None, ri_b64_json = Some videoBase64, ri_revised_prompt = prompt,
                                   ri_history_id = v_history_id generatedVideo, ri_item_id = v_item_id generatedVideo,
                                   ri_preview_url = v_preview_url generatedVideo, ri_hq_url = v_hq_url generatedVideo \<rparr>] \<rparr>)
      else
        Inr \<lparr> rd_created = x_unixTimestamp ext,
              rd_data = [\<lparr> ri_url = Some (v_url generatedVideo), ri_b64_json = None, ri_revised_prompt = prompt,
                           ri_history_id = v_history_id generatedVideo, ri_item_id = v_item_id generatedVideo,
                           ri_preview_url = v_preview_url generatedVideo, ri_hq_url = v_hq_url generatedVideo \<rparr>] \<rparr>)"

text \<open>The progress text of line 197, as its UTF-8 bytes.\<close>

definition progress_generating :: string where
  "progress_generating = [CHR 0xE7, CHR 0x94, CHR 0x9F, CHR 0xE6, CHR 0x88, CHR 0x90, CHR 0xE4, CHR 0xB8, CHR 0xAD]"

text \<open>
  The \<^verbatim>\<open>try\<close> block of the work (lines 197 to 253): the message of the exception
  that leaves it, or its normal end, with the store as the block left it.
\<close>

definition work_try :: "externals \<Rightarrow> job \<Rightarrow> task_store \<Rightarrow> (string + unit) \<times> task_store" where
  "work_try ext j store =
     (let store1 = taskStore_update (j_task j) (no_change\<lparr> u_status := Some Processing,
                                                             u_progress := Some progress_generating \<rparr>) store
      in case x_generateVideo ext (j_model j) (j_prompt j) (j_options j) (j_token j) of
           Inl msg \<Rightarrow> (Inl msg, store1)
         | Inr generatedVideo \<Rightarrow>
             (case format_result ext (j_response_format j) (j_prompt j) (j_token j) generatedVideo of
                Inl msg \<Rightarrow> (Inl msg, store1)
              | Inr resultData \<Rightarrow>
                  (Inr (), taskStore_update (j_task j)
                             (no_change\<lparr> u_status := Some Completed, u_result := Some resultData,
                                         u_completed_at := Some (x_now ext div 1000) \<rparr>) store1)))"

text \<open>
  The whole work: the \<^verbatim>\<open>catch\<close> block (lines 254 to 261) and the webhook (lines 263
  to 266). The outcome holds the store, the calls of \<^verbatim>\<open>sendWebhook\<close> and the errors
  logged; no exception leaves the \<^verbatim>\<open>catch\<close> block, since the store of the spec has no
  failing operation.
\<close>

record work_outcome =
  w_store :: task_store
  w_webhooks :: "(json \<times> task) list"
  w_logged :: "string list"

definition work :: "externals \<Rightarrow> job \<Rightarrow> task_store \<Rightarrow> work_outcome" where
  "work ext j store =
     (let (r, store1) = work_try ext j store;
          store2 = (case r of
                      Inl msg \<Rightarrow> taskStore_update (j_task j)
                                   (no_change\<lparr> u_status := Some Failed, u_error := Some msg,
                                               u_completed_at := Some (x_now ext div 1000) \<rparr>) store1
                    | Inr _ \<Rightarrow> store1);
          finalTask = taskStore_get (j_task j) store2
      in \<lparr> w_store = store2,
           w_webhooks = (case finalTask of
                           None \<Rightarrow> []
                         | Some t \<Rightarrow> if truthy (t_callback_url t) then [(t_callback_url t, t)] else []),
           w_logged = (case r of Inl msg \<Rightarrow> [msg] | Inr _ \<Rightarrow> []) \<rparr>)"

text \<open>
  The handler (lines 65 to 325). Its outcome is the error thrown or the response,
  with the task store and the task queue (the closures enqueued, in order) as it
  leaves them.
\<close>

definition generations ::
  "externals \<Rightarrow> request \<Rightarrow> task_store \<Rightarrow> job list \<Rightarrow> (herror + response) \<times> task_store \<times> job list" where
  "generations ext r store queued =
     (case validate (validations ext (isMultiPart r) r) of
        Some e \<Rightarrow> (Inl e, store, queued)
      | None \<Rightarrow>
          (case guards r of
             Some e \<Rightarrow> (Inl e, store, queued)
           | None \<Rightarrow>
               (let model = dflt (field (rq_body r) ''model'') (JStr (x_DEFAULT_MODEL ext));
                    prompt = field (rq_body r) ''prompt'';
                    response_format = dflt (field (rq_body r) ''response_format'') (JStr ''url'');
                    token = x_sample_token ext (field (rq_headers r) ''authorization'')
                in if isAsync r then
                     (let (t, store1) = taskStore_create
                            \<lparr> cf_type = Video, cf_status = Pending,
                              cf_callback_url = field (rq_body r) ''callback_url'',
                              cf_model = model, cf_prompt = prompt \<rparr> (x_unixTimestamp ext) store;
                          j = \<lparr> j_task = t_id t, j_model = model, j_prompt = prompt,
                                j_options = generation_options ext r,
                                j_response_format = response_format, j_token = token \<rparr>
                      in (Inr (AsyncAccepted (t_id t) ''pending''), store1, queued @ [j]))
                   else
                     (case x_generateVideo ext model prompt (generation_options ext r) token of
                        Inl msg \<Rightarrow> (Inl (Thrown msg), store, queued)
                      | Inr generatedVideo \<Rightarrow>
                          (case format_result ext response_format prompt token generatedVideo of
                             Inl msg \<Rightarrow> (Inl (Thrown msg), store, queued)
                           | Inr res \<Rightarrow> (Inr (SyncResult res), store, queued))))))"


text \<open>
  The task record that the asynchronous branch creates (lines 187 to 193, through
  \<^verbatim>\<open>taskStore.create\<close>) and the closure that it enqueues (lines 195 to 267), written
  out from the request.
\<close>

definition created_task :: "externals \<Rightarrow> request \<Rightarrow> task_store \<Rightarrow> task" where
  "created_task ext r store =
     \<lparr> t_id = next_id store, t_type = Video, t_status = Pending,
       t_model = dflt (field (rq_body r) ''model'') (JStr (x_DEFAULT_MODEL ext)),
       t_prompt = field (rq_body r) ''prompt'',
       t_callback_url = field (rq_body r) ''callback_url'',
       t_result = None, t_error = None, t_progress = None,
       t_created_at = x_unixTimestamp ext, t_completed_at = None \<rparr>"

definition enqueued_job :: "externals \<Rightarrow> request \<Rightarrow> task_store \<Rightarrow> job" where
  "enqueued_job ext r store =
     \<lparr> j_task = next_id store,
       j_model = dflt (field (rq_body r) ''model'') (JStr (x_DEFAULT_MODEL ext)),
       j_prompt = field (rq_body r) ''prompt'',
       j_options = generation_options ext r,
       j_response_format = dflt (field (rq_body r) ''response_format'') (JStr ''url''),
       j_token = x_sample_token ext (field (rq_headers r) ''authorization'') \<rparr>"

section \<open>Concrete inputs\<close>

text \<open>
  An environment that sets no variable, so that the constructor takes every default
  (an interval of 200 ms, 20 concurrent grants, 2000 waiters, a timeout of 120 s), and
  one that allows two concurrent grants and two waiters.
\<close>

definition env0 :: environment where
  "env0 = \<lparr> SESSION_RATE_LIMIT_ENABLED = None, SESSION_MIN_INTERVAL_MS = None,
            SESSION_MAX_CONCURRENT = None, SESSION_MAX_QUEUE_PER_SESSION = None,
            SESSION_QUEUE_TIMEOUT_MS = None, REDIS_URL = None, SESSION_RATE_LIMIT_DISTRIBUTED = None,
            SESSION_INFLIGHT_TTL_MS = None, SESSION_REDIS_POLL_INTERVAL_MS = None \<rparr>"

definition env2 :: environment where
  "env2 = env0\<lparr> SESSION_MAX_CONCURRENT := Some 2, SESSION_MAX_QUEUE_PER_SESSION := Some 2 \<rparr>"



text \<open>
  A digest for evaluation (the theorems hold for every digest function), the store in
  which the counter of in-flight grants of the credential \<open>tok\<close> stands at the default
  bound of 20, and three passes of the distributed loop that find this store; the clock
  of the third pass has reached the deadline of a call that started at time 0 with the
  default timeout of 120 s.
\<close>

definition digest0 :: "string \<Rightarrow> string" where
  "digest0 s = s"

definition db_tok :: redis where
  "db_tok = (\<lambda>k. None)(''jimeng:session_rl:inflight:tok'' \<mapsto> \<lparr> re_value = 20, re_px = Some 120000 \<rparr>)"

definition db_empty :: redis where
  "db_empty = (\<lambda>k. None)"

definition polls3 :: "poll list" where
  "polls3 = [\<lparr> p_now = 10, p_eval = Inr db_tok, p_after = 11 \<rparr>,
             \<lparr> p_now = 60000, p_eval = Inr db_tok, p_after = 60001 \<rparr>,
             \<lparr> p_now = 120000, p_eval = Inr db_tok, p_after = 120001 \<rparr>]"



definition db_one :: redis where
  "db_one = snd (REDIS_ACQUIRE_SCRIPT ''jimeng:session_rl:inflight:tok'' ''jimeng:session_rl:next:tok''
                   1000 200 1 120000 60000 db_empty)"






text \<open>
  Collaborators for evaluation: a generator that returns a video, and one that throws.
  A JSON submission with \<^verbatim>\<open>async: true\<close> and a callback address, the same submission
  without \<^verbatim>\<open>async\<close>, and an empty task store.
\<close>

definition ext_ok :: externals where
  "ext_ok = \<lparr> x_parseInt = (\<lambda>s. None),
              x_DEFAULT_MODEL = ''jimeng-video-3.0'',
              x_sample_token = (\<lambda>a. ''tok''),
              x_generateVideo = (\<lambda>m p opts tok. Inr \<lparr> v_url = ''https://cdn/v.mp4'', v_history_id = ''h1'',
                                                         v_item_id = ''i1'', v_preview_url = ''https://cdn/p.mp4'',
                                                         v_hq_url = ''https://cdn/hq.mp4'' \<rparr>),
              x_parseProxyFromToken = (\<lambda>tok. None),
              x_fetchFileBASE64 = (\<lambda>u proxy. Inr ''AAAA''),
              x_unixTimestamp = 1700000000,
              x_now = 1700000000999 \<rparr>"

definition ext_fail :: externals where
  "ext_fail = ext_ok\<lparr> x_generateVideo := (\<lambda>m p opts tok. Inl ''upstream 500'') \<rparr>"

definition r_sync :: request where
  "r_sync = \<lparr> rq_headers = [(''content-type'', JStr ''application/json''), (''authorization'', JStr ''Bearer tok'')],
              rq_body = [(''prompt'', JStr ''a cat''), (''callback_url'', JStr ''http://cb'')],
              rq_files = [] \<rparr>"

definition r_async :: request where
  "r_async = r_sync\<lparr> rq_body := (''async'', JBool True) # rq_body r_sync \<rparr>"

definition store0 :: task_store where
  "store0 = \<lparr> tasks = (\<lambda>i. None), next_id = 0 \<rparr>"

text \<open>
  The task that the handler creates for the asynchronous submission in the empty store,
  the store that holds it, and the closure enqueued for it.
\<close>

definition task0 :: task where
  "task0 = \<lparr> t_id = 0, t_type = Video, t_status = Pending, t_model = JStr ''jimeng-video-3.0'',
             t_prompt = JStr ''a cat'', t_callback_url = JStr ''http://cb'', t_result = None,
             t_error = None, t_progress = None, t_created_at = 1700000000, t_completed_at = None \<rparr>"

definition store1 :: task_store where
  "store1 = \<lparr> tasks = (\<lambda>i. None)(0 \<mapsto> task0), next_id = 1 \<rparr>"

definition job0 :: job where
  "job0 = \<lparr> j_task = 0, j_model = JStr ''jimeng-video-3.0'', j_prompt = JStr ''a cat'',
            j_options = generation_options ext_ok r_async, j_response_format = JStr ''url'',
            j_token = ''tok'' \<rparr>"

section \<open>Proofs: the invariant of the local mode\<close>

text \<open>
  Every operation of the local mode keeps \<open>limiter_inv\<close>. Inside an operation the
  bucket it works on may be idle and still registered (a new bucket before the waiter is
  pushed, a bucket whose last grant is released); \<open>pre_inv\<close> holds throughout, and
  \<^verbatim>\<open>processQueue\<close> and \<^verbatim>\<open>cleanupBucket\<close> restore \<open>reg_iff\<close> for that bucket.
\<close>

lemma pre_inv_active: "pre_inv c st \<Longrightarrow> active (heap st a) \<le> maxConcurrent c"
  unfolding pre_inv_def inv_active_def by blast

lemma pre_inv_nonneg: "pre_inv c st \<Longrightarrow> 0 \<le> active (heap st a)"
  unfolding pre_inv_def inv_count_def by simp

lemma pre_inv_qlen: "pre_inv c st \<Longrightarrow> int (length (queue (heap st a))) \<le> maxQueuePerSession c"
  unfolding pre_inv_def inv_qlen_def by blast

lemma cleanupBucket_eq:
  "cleanupBucket s a st = (if idle (heap st a) then st\<lparr> buckets := (buckets st)(s := None) \<rparr> else st)"
  by (auto simp: cleanupBucket_def idle_def)

lemma unreleased_at_0:
  "unreleased_at a cls = 0 \<Longrightarrow> cl \<in> set cls \<Longrightarrow> rc_bucket cl = a \<Longrightarrow> rc_released cl"
  unfolding unreleased_at_def by (auto simp: filter_empty_conv)

lemma deregister_pre_inv:
  assumes "pre_inv c st" "buckets st s = Some a" "idle (heap st a)"
  shows "pre_inv c (st\<lparr> buckets := (buckets st)(s := None) \<rparr>)"
proof -
  have un0: "unreleased_at a (closures st) = 0"
    using assms by (auto simp: pre_inv_def inv_count_def idle_def)
  have 1: "inv_alloc (st\<lparr> buckets := (buckets st)(s := None) \<rparr>)"
    using assms(1) by (auto simp: pre_inv_def inv_alloc_def)
  have 2: "inv_inj (st\<lparr> buckets := (buckets st)(s := None) \<rparr>)"
    using assms(1) by (auto simp: pre_inv_def inv_inj_def)
  have 3: "inv_count (st\<lparr> buckets := (buckets st)(s := None) \<rparr>)"
    using assms(1) by (auto simp: pre_inv_def inv_count_def)
  have 4: "inv_qlen c (st\<lparr> buckets := (buckets st)(s := None) \<rparr>)"
    using assms(1) by (auto simp: pre_inv_def inv_qlen_def)
  have 5: "inv_active c (st\<lparr> buckets := (buckets st)(s := None) \<rparr>)"
    using assms(1) by (auto simp: pre_inv_def inv_active_def)
  have 6: "inv_closures (st\<lparr> buckets := (buckets st)(s := None) \<rparr>)"
    using assms(1,2) unreleased_at_0[OF un0] by (fastforce simp: pre_inv_def inv_closures_def)
  have 7: "inv_timeouts (st\<lparr> buckets := (buckets st)(s := None) \<rparr>)"
    using assms by (fastforce simp: pre_inv_def inv_timeouts_def idle_def)
  have 8: "inv_timer (st\<lparr> buckets := (buckets st)(s := None) \<rparr>)"
    using assms by (fastforce simp: pre_inv_def inv_timer_def idle_def)
  from 1 2 3 4 5 6 7 8 show ?thesis by (simp add: pre_inv_def)
qed

lemma cleanup_inv:
  assumes "pre_inv c st" "buckets st s = Some a" "\<forall>a'. a' \<noteq> a \<longrightarrow> reg_iff st a'"
  shows "limiter_inv c (cleanupBucket s a st)"
proof (cases "idle (heap st a)")
  case False
  then have "reg_iff st a" using assms(2) by (auto simp: reg_iff_def registered_def)
  with assms have "\<forall>a'. reg_iff st a'" by metis
  with assms False show ?thesis by (simp add: limiter_inv_def cleanupBucket_eq)
next
  case True
  have p: "pre_inv c (st\<lparr> buckets := (buckets st)(s := None) \<rparr>)"
    using deregister_pre_inv[OF assms(1,2) True] .
  have r: "\<forall>a'. reg_iff (st\<lparr> buckets := (buckets st)(s := None) \<rparr>) a'"
  proof
    fix a'
    show "reg_iff (st\<lparr> buckets := (buckets st)(s := None) \<rparr>) a'"
    proof (cases "a' = a")
      case True
      have "\<not> registered (st\<lparr> buckets := (buckets st)(s := None) \<rparr>) a"
        using assms(1,2) by (auto simp: registered_def pre_inv_def inv_inj_def)
      then show ?thesis using True \<open>idle (heap st a)\<close> by (simp add: reg_iff_def)
    next
      case False
      then have "reg_iff st a'" using assms(3) by simp
      moreover have "registered (st\<lparr> buckets := (buckets st)(s := None) \<rparr>) a' = registered st a'"
        unfolding registered_def using False assms(2) by (simp) (metis option.inject)
      ultimately show ?thesis by (simp add: reg_iff_def)
    qed
  qed
  show ?thesis using p r True by (simp add: limiter_inv_def cleanupBucket_eq)
qed

lemma unreleased_at_append:
  "unreleased_at a (cls @ [cl]) = unreleased_at a cls + (if rc_bucket cl = a \<and> \<not> rc_released cl then 1 else 0)"
  by (simp add: unreleased_at_def)

lemma grant_pre_inv:
  assumes "pre_inv c st" "buckets st s = Some a" "queue (heap st a) = w # rest"
    "active (heap st a) < maxConcurrent c"
  shows "pre_inv c (grant now s a w st)"
proof -
  have 1: "inv_alloc (grant now s a w st)"
    using assms(1) by (auto simp: pre_inv_def inv_alloc_def grant_def)
  have 2: "inv_inj (grant now s a w st)"
    using assms(1) by (auto simp: pre_inv_def inv_inj_def grant_def)
  have 3: "inv_count (grant now s a w st)"
    using assms(1) by (auto simp: pre_inv_def inv_count_def grant_def unreleased_at_append)
  have 4: "inv_qlen c (grant now s a w st)"
  proof -
    have "\<forall>a'. int (length (queue (heap st a'))) \<le> maxQueuePerSession c"
      using assms(1) by (simp add: pre_inv_def inv_qlen_def)
    moreover have "\<And>a'. length (queue (heap (grant now s a w st) a')) \<le> length (queue (heap st a'))"
      by (simp add: grant_def)
    ultimately show ?thesis unfolding inv_qlen_def
      by (metis of_nat_le_iff order_trans)
  qed
  have 5: "inv_active c (grant now s a w st)"
    using assms(1,4) by (auto simp: pre_inv_def inv_active_def grant_def)
  have 6: "inv_closures (grant now s a w st)"
    using assms(1,2) by (auto simp: pre_inv_def inv_closures_def grant_def)
  have 7: "inv_timeouts (grant now s a w st)"
    using assms(1,3) by (auto simp: pre_inv_def inv_timeouts_def grant_def)
  have 8: "inv_timer (grant now s a w st)"
    using assms(1) by (auto simp: pre_inv_def inv_timer_def grant_def)
  from 1 2 3 4 5 6 7 8 show ?thesis by (simp add: pre_inv_def)
qed


declare processQueue.simps [simp del]

declare trimStart.simps [simp del]

lemma reg_iff_frame:
  "buckets st' = buckets st \<Longrightarrow> heap st' a' = heap st a' \<Longrightarrow> reg_iff st' a' = reg_iff st a'"
  by (simp add: reg_iff_def registered_def)

lemma set_timer_pre_inv:
  assumes "pre_inv c st" "buckets st s = Some a"
  shows "pre_inv c (st\<lparr> heap := (heap st)(a := (heap st a)\<lparr> timer := Some (s, t) \<rparr>) \<rparr>)"
proof -
  let ?st = "st\<lparr> heap := (heap st)(a := (heap st a)\<lparr> timer := Some (s, t) \<rparr>) \<rparr>"
  have 1: "inv_alloc ?st" using assms(1) by (auto simp: pre_inv_def inv_alloc_def)
  have 2: "inv_inj ?st" using assms(1) by (auto simp: pre_inv_def inv_inj_def)
  have 3: "inv_count ?st" using assms(1) by (auto simp: pre_inv_def inv_count_def)
  have 4: "inv_qlen c ?st" using assms(1) by (auto simp: pre_inv_def inv_qlen_def)
  have 5: "inv_active c ?st" using assms(1) by (auto simp: pre_inv_def inv_active_def)
  have 6: "inv_closures ?st" using assms(1) by (auto simp: pre_inv_def inv_closures_def)
  have 7: "inv_timeouts ?st" using assms(1) by (auto simp: pre_inv_def inv_timeouts_def)
  have 8: "inv_timer ?st" using assms by (auto simp: pre_inv_def inv_timer_def)
  from 1 2 3 4 5 6 7 8 show ?thesis by (simp add: pre_inv_def)
qed

lemma processQueue_inv:
  "enabled c \<Longrightarrow> 1 \<le> maxConcurrent c \<Longrightarrow> pre_inv c st \<Longrightarrow> buckets st s = Some a \<Longrightarrow>
   (\<forall>a'. a' \<noteq> a \<longrightarrow> reg_iff st a') \<Longrightarrow> limiter_inv c (processQueue c now s a st)"
proof (induction c now s a st rule: processQueue.induct)
  case (1 c now sessionId a st)
  note en = "1.prems"(1) and mc = "1.prems"(2)
  note pre = "1.prems"(3) and reg = "1.prems"(4) and oth = "1.prems"(5)
  have act0: "0 \<le> active (heap st a)"
    using pre by (simp add: pre_inv_def inv_count_def)
  have nonidle_all: "\<not> idle (heap st a) \<Longrightarrow> \<forall>a'. reg_iff st a'"
  proof -
    assume "\<not> idle (heap st a)"
    then have "reg_iff st a" using reg by (auto simp: reg_iff_def registered_def)
    with oth show ?thesis by metis
  qed
  show ?case
  proof (cases "active (heap st a) \<ge> maxConcurrent c")
    case True
    then have "\<not> idle (heap st a)" using mc en "1.prems" by (auto simp: idle_def)
    then show ?thesis using pre True nonidle_all
      by (subst processQueue.simps) (simp add: limiter_inv_def)
  next
    case lt: False
    show ?thesis
    proof (cases "queue (heap st a)")
      case Nil
      then show ?thesis using lt en cleanup_inv[OF pre reg oth]
        by (subst processQueue.simps) simp
    next
      case (Cons w rest)
      then have ni: "\<not> idle (heap st a)" by (simp add: idle_def)
      show ?thesis
      proof (cases "max 0 (lastStartedAt (heap st a) + minIntervalMs c - now) > 0")
        case wait: True
        show ?thesis
        proof (cases "timer (heap st a)")
          case None
          let ?st = "st\<lparr> heap := (heap st)(a := (heap st a)\<lparr> timer :=
                 Some (sessionId, now + setTimeout_delay (max 0 (lastStartedAt (heap st a) + minIntervalMs c - now))) \<rparr>) \<rparr>"
          have p: "pre_inv c ?st" using set_timer_pre_inv[OF pre reg] .
          have r: "\<forall>a'. reg_iff ?st a'"
          proof
            fix a' show "reg_iff ?st a'"
            proof (cases "a' = a")
              case True
              then show ?thesis using reg by (auto simp: reg_iff_def registered_def idle_def)
            next
              case False
              then have "reg_iff ?st a' = reg_iff st a'" by (intro reg_iff_frame) simp_all
              then show ?thesis using oth False by simp
            qed
          qed
          have "processQueue c now sessionId a st = ?st"
            using lt en Cons wait None by (subst processQueue.simps) simp
          then show ?thesis using p r by (simp add: limiter_inv_def)
        next
          case (Some tm)
          have "processQueue c now sessionId a st = st"
            using lt en Cons wait Some by (subst processQueue.simps) simp
          then show ?thesis using pre nonidle_all[OF ni] by (simp add: limiter_inv_def)
        qed
      next
        case nowait: False
        let ?st = "grant now sessionId a w st"
        have lt': "active (heap st a) < maxConcurrent c" using lt by simp
        have p: "pre_inv c ?st" using grant_pre_inv[OF pre reg Cons lt'] .
        have b: "buckets ?st sessionId = Some a" using reg by (simp add: grant_def)
        have o: "\<forall>a'. a' \<noteq> a \<longrightarrow> reg_iff ?st a'"
        proof (intro allI impI)
          fix a' assume "a' \<noteq> a"
          then have "reg_iff ?st a' = reg_iff st a'" by (intro reg_iff_frame) (simp_all add: grant_def)
          then show "reg_iff ?st a'" using oth \<open>a' \<noteq> a\<close> by simp
        qed
        show ?thesis
        proof (cases "active (heap ?st a) < maxConcurrent c")
          case True
          have "processQueue c now sessionId a st = processQueue c now sessionId a ?st"
            using lt en Cons nowait True by (subst processQueue.simps) (simp add: Let_def)
          moreover have "limiter_inv c (processQueue c now sessionId a ?st)"
            using "1.IH"[OF _ _ _ _ Cons refl True en mc p b o] en lt Cons nowait by simp
          ultimately show ?thesis by simp
        next
          case False
          have e: "processQueue c now sessionId a st = ?st"
            using lt en Cons nowait False by (subst processQueue.simps) (simp add: Let_def)
          have "\<not> idle (heap ?st a)" using act0 by (simp add: idle_def grant_def)
          then have "reg_iff ?st a" using b by (auto simp: reg_iff_def registered_def)
          with o have "\<forall>a'. reg_iff ?st a'" by metis
          then show ?thesis using p e by (simp add: limiter_inv_def)
        qed
      qed
    qed
  qed
qed


lemma processQueue_frame:
  "(buckets (processQueue c now s a st) = buckets st \<or>
    buckets (processQueue c now s a st) = (buckets st)(s := None)) \<and>
   (\<forall>a'. a' \<noteq> a \<longrightarrow> heap (processQueue c now s a st) a' = heap st a') \<and>
   next_addr (processQueue c now s a st) = next_addr st \<and>
   next_waiter (processQueue c now s a st) = next_waiter st \<and>
   rejected (processQueue c now s a st) = rejected st"
proof (induction c now s a st rule: processQueue.induct)
  case (1 c now sessionId a st)
  show ?case
  proof (cases "\<not> enabled c \<or> active (heap st a) \<ge> maxConcurrent c \<or> queue (heap st a) = []
                \<or> max 0 (lastStartedAt (heap st a) + minIntervalMs c - now) > 0")
    case True
    then show ?thesis
      by (subst (1 2 3 4 5 6) processQueue.simps) (auto simp: cleanupBucket_eq)
  next
    case False
    then obtain w rest where q: "queue (heap st a) = w # rest" by (cases "queue (heap st a)") auto
    show ?thesis
    proof (cases "active (heap (grant now sessionId a w st) a) < maxConcurrent c")
      case True
      have e: "processQueue c now sessionId a st = processQueue c now sessionId a (grant now sessionId a w st)"
        using False q True by (subst processQueue.simps) (simp add: Let_def)
      have "buckets (grant now sessionId a w st) = buckets st"
        "\<And>a'. a' \<noteq> a \<Longrightarrow> heap (grant now sessionId a w st) a' = heap st a'"
        "next_addr (grant now sessionId a w st) = next_addr st"
        "next_waiter (grant now sessionId a w st) = next_waiter st"
        "rejected (grant now sessionId a w st) = rejected st"
        by (simp_all add: grant_def)
      then show ?thesis using "1.IH"[OF _ _ _ _ q refl True] False q unfolding e by simp
    next
      case F2: False
      have e: "processQueue c now sessionId a st = grant now sessionId a w st"
        using False q F2 by (subst processQueue.simps) (simp add: Let_def)
      show ?thesis unfolding e by (simp add: grant_def)
    qed
  qed
qed

lemma cleanup_inv_again:
  assumes "limiter_inv c st" "buckets st s = Some a \<or> buckets st s = None"
  shows "cleanupBucket s a st = st"
proof (cases "buckets st s")
  case None
  then have "(buckets st)(s := None) = buckets st" by auto
  then show ?thesis by (simp add: cleanupBucket_eq)
next
  case (Some a')
  then have "a' = a" using assms(2) by simp
  then have "registered st a" using Some by (auto simp: registered_def)
  then have "\<not> idle (heap st a)" using assms(1) by (auto simp: limiter_inv_def reg_iff_def)
  then show ?thesis by (simp add: cleanupBucket_eq)
qed

lemma unreleased_at_update:
  "i < length cls \<Longrightarrow> \<not> rc_released (cls ! i) \<Longrightarrow>
   unreleased_at a cls =
     unreleased_at a (cls[i := (cls ! i)\<lparr> rc_released := True \<rparr>]) + (if rc_bucket (cls ! i) = a then 1 else 0)"
proof (induction cls arbitrary: i)
  case Nil
  then show ?case by simp
next
  case (Cons x xs)
  show ?case
  proof (cases i)
    case 0
    then show ?thesis using Cons.prems by (simp add: unreleased_at_def)
  next
    case (Suc j)
    then show ?thesis using Cons.prems Cons.IH[of j] by (simp add: unreleased_at_def)
  qed
qed

lemma release_inv:
  assumes en: "enabled c" and mc: "1 \<le> maxConcurrent c" and inv: "limiter_inv c st"
  shows "limiter_inv c (release c now i st)"
proof (cases "i \<ge> length (closures st) \<or> rc_released (closures st ! i)")
  case True
  then show ?thesis using inv by (auto simp: release_def)
next
  case False
  then have i: "i < length (closures st)" and nr: "\<not> rc_released (closures st ! i)" by auto
  define cl where "cl = closures st ! i"
  define a where "a = rc_bucket cl"
  define s where "s = rc_session cl"
  define st1 where "st1 = st\<lparr> closures := (closures st)[i := cl\<lparr> rc_released := True \<rparr>],
                      heap := (heap st)(a := (heap st a)\<lparr> active := max 0 (active (heap st a) - 1) \<rparr>) \<rparr>"
  have pre: "pre_inv c st" and regs: "\<forall>a. reg_iff st a" using inv by (auto simp: limiter_inv_def)
  have clin: "cl \<in> set (closures st)" using i by (simp add: cl_def)
  have reg: "buckets st s = Some a"
    using pre clin nr by (auto simp: pre_inv_def inv_closures_def cl_def a_def s_def)
  have cnt: "\<And>a'. unreleased_at a' (closures st) =
      unreleased_at a' ((closures st)[i := cl\<lparr> rc_released := True \<rparr>]) + (if a = a' then 1 else 0)"
    using unreleased_at_update[OF i nr] by (simp add: cl_def a_def)
  have 1: "inv_alloc st1" using pre by (auto simp: pre_inv_def inv_alloc_def st1_def)
  have 2: "inv_inj st1" using pre by (auto simp: pre_inv_def inv_inj_def st1_def)
  have 3: "inv_count st1"
    unfolding inv_count_def
  proof
    fix a'
    have "active (heap st a') = int (unreleased_at a' (closures st))"
      using pre by (simp add: pre_inv_def inv_count_def)
    then show "active (heap st1 a') = int (unreleased_at a' (closures st1))"
      using cnt[of a'] by (auto simp: st1_def)
  qed
  have 4: "inv_qlen c st1" using pre by (auto simp: pre_inv_def inv_qlen_def st1_def)
  have 5: "inv_active c st1"
    unfolding inv_active_def
  proof
    fix a'
    have "active (heap st a') \<le> maxConcurrent c" using pre by (simp add: pre_inv_def inv_active_def)
    then show "active (heap st1 a') \<le> maxConcurrent c" using mc by (auto simp: st1_def)
  qed
  have 6: "inv_closures st1"
    unfolding inv_closures_def
  proof (intro ballI impI)
    fix x assume x: "x \<in> set (closures st1)" "\<not> rc_released x"
    then have "x \<in> set ((closures st)[i := cl\<lparr> rc_released := True \<rparr>])" by (simp add: st1_def)
    then have "x \<in> insert (cl\<lparr> rc_released := True \<rparr>) (set (closures st))"
      using set_update_subset_insert by fastforce
    then have "x \<in> set (closures st)" using x(2) by auto
    then show "buckets st1 (rc_session x) = Some (rc_bucket x)"
      using pre x(2) by (auto simp: pre_inv_def inv_closures_def st1_def)
  qed
  have 7: "inv_timeouts st1" using pre by (auto simp: pre_inv_def inv_timeouts_def st1_def)
  have 8: "inv_timer st1" using pre by (auto simp: pre_inv_def inv_timer_def st1_def)
  have p1: "pre_inv c st1" using 1 2 3 4 5 6 7 8 by (simp add: pre_inv_def)
  have b1: "buckets st1 s = Some a" using reg by (simp add: st1_def)
  have o1: "\<forall>a'. a' \<noteq> a \<longrightarrow> reg_iff st1 a'"
  proof (intro allI impI)
    fix a' assume "a' \<noteq> a"
    then have "reg_iff st1 a' = reg_iff st a'" by (intro reg_iff_frame) (simp_all add: st1_def)
    then show "reg_iff st1 a'" using regs by simp
  qed
  have i2: "limiter_inv c (processQueue c now s a st1)"
    using processQueue_inv[OF en mc p1 b1 o1] .
  have "buckets (processQueue c now s a st1) s = Some a \<or> buckets (processQueue c now s a st1) s = None"
    using processQueue_frame[of c now s a st1] b1 by auto
  then have "cleanupBucket s a (processQueue c now s a st1) = processQueue c now s a st1"
    using cleanup_inv_again[OF i2] by simp
  moreover have "release c now i st = cleanupBucket s a (processQueue c now s a st1)"
    using False by (simp add: release_def Let_def st1_def cl_def a_def s_def)
  ultimately show ?thesis using i2 by simp
qed


lemma retryTimer_inv:
  assumes en: "enabled c" and mc: "1 \<le> maxConcurrent c" and inv: "limiter_inv c st"
  shows "limiter_inv c (retryTimer c now a st)"
proof (cases "timer (heap st a)")
  case None
  then show ?thesis using inv by (simp add: retryTimer_def)
next
  case (Some tm)
  obtain s due where tm: "tm = (s, due)" by (cases tm)
  define st1 where "st1 = st\<lparr> heap := (heap st)(a := (heap st a)\<lparr> timer := None \<rparr>) \<rparr>"
  have pre: "pre_inv c st" and regs: "\<forall>a. reg_iff st a" using inv by (auto simp: limiter_inv_def)
  have reg: "buckets st s = Some a" using pre Some tm by (auto simp: pre_inv_def inv_timer_def)
  have 1: "inv_alloc st1" using pre by (auto simp: pre_inv_def inv_alloc_def st1_def)
  have 2: "inv_inj st1" using pre by (auto simp: pre_inv_def inv_inj_def st1_def)
  have 3: "inv_count st1" using pre by (auto simp: pre_inv_def inv_count_def st1_def)
  have 4: "inv_qlen c st1" using pre by (auto simp: pre_inv_def inv_qlen_def st1_def)
  have 5: "inv_active c st1" using pre by (auto simp: pre_inv_def inv_active_def st1_def)
  have 6: "inv_closures st1" using pre by (auto simp: pre_inv_def inv_closures_def st1_def)
  have 7: "inv_timeouts st1" using pre by (auto simp: pre_inv_def inv_timeouts_def st1_def)
  have 8: "inv_timer st1" using pre by (auto simp: pre_inv_def inv_timer_def st1_def)
  have p1: "pre_inv c st1" using 1 2 3 4 5 6 7 8 by (simp add: pre_inv_def)
  have b1: "buckets st1 s = Some a" using reg by (simp add: st1_def)
  have o1: "\<forall>a'. a' \<noteq> a \<longrightarrow> reg_iff st1 a'"
  proof (intro allI impI)
    fix a' assume "a' \<noteq> a"
    then have "reg_iff st1 a' = reg_iff st a'" by (intro reg_iff_frame) (simp_all add: st1_def)
    then show "reg_iff st1 a'" using regs by simp
  qed
  have "retryTimer c now a st = processQueue c now s a st1"
    using Some tm by (simp add: retryTimer_def st1_def)
  then show ?thesis using processQueue_inv[OF en mc p1 b1 o1] by simp
qed

lemma waiterTimeout_inv:
  assumes inv: "limiter_inv c st"
  shows "limiter_inv c (waiterTimeout c w st)"
proof (cases "find (\<lambda>h. th_waiter h = w) (timeouts st)")
  case None
  then show ?thesis using inv by (simp add: waiterTimeout_def)
next
  case (Some h)
  then have hin: "h \<in> set (timeouts st)" and hw: "th_waiter h = w"
    by (auto simp: find_Some_iff)
  define a where "a = th_bucket h"
  define s where "s = th_session h"
  define st0 where "st0 = st\<lparr> timeouts := filter (\<lambda>h. th_waiter h \<noteq> w) (timeouts st) \<rparr>"
  define st1 where "st1 = st0\<lparr> heap := (heap st0)(a := (heap st0 a)\<lparr> queue := remove1 w (queue (heap st0 a)) \<rparr>),
                           rejected := rejected st0 @ [(w, WaitTimeout (maskSession s) (queueTimeoutMs c))] \<rparr>"
  have pre: "pre_inv c st" and regs: "\<forall>a. reg_iff st a" using inv by (auto simp: limiter_inv_def)
  have reg: "buckets st s = Some a" and wq: "w \<in> set (queue (heap st a))"
    using pre hin hw by (auto simp: pre_inv_def inv_timeouts_def a_def s_def)
  have 1: "inv_alloc st1" using pre by (auto simp: pre_inv_def inv_alloc_def st1_def st0_def)
  have 2: "inv_inj st1" using pre by (auto simp: pre_inv_def inv_inj_def st1_def st0_def)
  have 3: "inv_count st1" using pre by (auto simp: pre_inv_def inv_count_def st1_def st0_def)
  have 4: "inv_qlen c st1"
    unfolding inv_qlen_def
  proof
    fix a'
    have "int (length (queue (heap st a'))) \<le> maxQueuePerSession c"
      using pre by (simp add: pre_inv_def inv_qlen_def)
    moreover have "length (queue (heap st1 a')) \<le> length (queue (heap st a'))"
      by (simp add: st1_def st0_def length_remove1)
    ultimately show "int (length (queue (heap st1 a'))) \<le> maxQueuePerSession c" by linarith
  qed
  have 5: "inv_active c st1" using pre by (auto simp: pre_inv_def inv_active_def st1_def st0_def)
  have 6: "inv_closures st1" using pre by (auto simp: pre_inv_def inv_closures_def st1_def st0_def)
  have 7: "inv_timeouts st1"
    unfolding inv_timeouts_def
  proof (intro ballI)
    fix x assume "x \<in> set (timeouts st1)"
    then have x: "x \<in> set (timeouts st)" "th_waiter x \<noteq> w" by (auto simp: st1_def st0_def)
    then have "buckets st (th_session x) = Some (th_bucket x)"
      "th_waiter x \<in> set (queue (heap st (th_bucket x)))"
      using pre by (auto simp: pre_inv_def inv_timeouts_def)
    then show "buckets st1 (th_session x) = Some (th_bucket x) \<and>
               th_waiter x \<in> set (queue (heap st1 (th_bucket x)))"
      using x(2) by (auto simp: st1_def st0_def)
  qed
  have 8: "inv_timer st1" using pre by (auto simp: pre_inv_def inv_timer_def st1_def st0_def)
  have p1: "pre_inv c st1" using 1 2 3 4 5 6 7 8 by (simp add: pre_inv_def)
  have b1: "buckets st1 s = Some a" using reg by (simp add: st1_def st0_def)
  have o1: "\<forall>a'. a' \<noteq> a \<longrightarrow> reg_iff st1 a'"
  proof (intro allI impI)
    fix a' assume "a' \<noteq> a"
    then have "reg_iff st1 a' = reg_iff st a'" by (intro reg_iff_frame) (simp_all add: st1_def st0_def)
    then show "reg_iff st1 a'" using regs by simp
  qed
  have "waiterTimeout c w st = cleanupBucket s a st1"
    using Some wq by (simp add: waiterTimeout_def Let_def st1_def st0_def a_def s_def)
  then show ?thesis using cleanup_inv[OF p1 b1 o1] by simp
qed


lemma getBucket_existing:
  "buckets st s = Some a \<Longrightarrow> getBucket s st = (a, st)"
  by (simp add: getBucket_def)

lemma getBucket_fresh:
  "buckets st s = None \<Longrightarrow>
   getBucket s st = (next_addr st, st\<lparr> buckets := (buckets st)(s \<mapsto> next_addr st),
                                        heap := (heap st)(next_addr st := new_bucket),
                                        next_addr := Suc (next_addr st) \<rparr>)"
  by (simp add: getBucket_def)

lemma getBucket_inv:
  assumes inv: "limiter_inv c st" and g: "getBucket s st = (a, st1)"
  shows "pre_inv c st1 \<and> buckets st1 s = Some a \<and> (\<forall>a'. a' \<noteq> a \<longrightarrow> reg_iff st1 a') \<and>
         (buckets st s = None \<longrightarrow> queue (heap st1 a) = [])"
proof (cases "buckets st s")
  case (Some a')
  then have "a' = a" "st1 = st" using g by (simp_all add: getBucket_def)
  then show ?thesis using inv Some by (simp add: limiter_inv_def)
next
  case None
  have pre: "pre_inv c st" and regs: "\<forall>a. reg_iff st a" using inv by (auto simp: limiter_inv_def)
  have a: "a = next_addr st" and st1: "st1 = st\<lparr> buckets := (buckets st)(s \<mapsto> a),
        heap := (heap st)(a := new_bucket), next_addr := Suc a \<rparr>"
    using g None by (auto simp: getBucket_fresh)
  have lt: "\<And>s' a'. buckets st s' = Some a' \<Longrightarrow> a' < a"
    using pre a by (auto simp: pre_inv_def inv_alloc_def)
  then have nreg: "\<not> registered st a" by (auto simp: registered_def)
  then have idl: "idle (heap st a)" using regs by (auto simp: reg_iff_def)
  have un0: "unreleased_at a (closures st) = 0"
    using pre idl by (auto simp: pre_inv_def inv_count_def idle_def)
  have 1: "inv_alloc st1" using lt by (auto simp: inv_alloc_def st1 less_Suc_eq)
  have 2: "inv_inj st1" using pre lt by (auto simp: pre_inv_def inv_inj_def st1)
  have 3: "inv_count st1"
    using pre un0 by (auto simp: pre_inv_def inv_count_def st1 new_bucket_def)
  have 4: "inv_qlen c st1"
    unfolding inv_qlen_def
  proof
    fix a'
    have "int (length (queue (heap st a'))) \<le> maxQueuePerSession c"
      using pre by (simp add: pre_inv_def inv_qlen_def)
    moreover have "length (queue (heap st1 a')) \<le> length (queue (heap st a'))"
      by (simp add: st1 new_bucket_def)
    ultimately show "int (length (queue (heap st1 a'))) \<le> maxQueuePerSession c" by linarith
  qed
  have 5: "inv_active c st1"
    unfolding inv_active_def
  proof
    fix a'
    have "active (heap st a') \<le> maxConcurrent c" "0 \<le> active (heap st a')"
      using pre_inv_active[OF pre] pre_inv_nonneg[OF pre] by simp_all
    then show "active (heap st1 a') \<le> maxConcurrent c"
      using idl by (cases "a' = a") (auto simp: st1 new_bucket_def idle_def)
  qed
  have 6: "inv_closures st1"
    using pre None by (fastforce simp: pre_inv_def inv_closures_def st1)
  have 7: "inv_timeouts st1"
    unfolding inv_timeouts_def
  proof (intro ballI)
    fix x assume "x \<in> set (timeouts st1)"
    then have "x \<in> set (timeouts st)" by (simp add: st1)
    then have x: "buckets st (th_session x) = Some (th_bucket x)"
      "th_waiter x \<in> set (queue (heap st (th_bucket x)))"
      using pre by (auto simp: pre_inv_def inv_timeouts_def)
    then have "th_session x \<noteq> s" "th_bucket x \<noteq> a" using None lt by auto
    then show "buckets st1 (th_session x) = Some (th_bucket x) \<and>
               th_waiter x \<in> set (queue (heap st1 (th_bucket x)))"
      using x by (simp add: st1)
  qed
  have 8: "inv_timer st1"
    unfolding inv_timer_def
  proof (intro allI impI)
    fix a' s' t assume t: "timer (heap st1 a') = Some (s', t)"
    then have "a' \<noteq> a" by (auto simp: st1 new_bucket_def)
    then have "timer (heap st a') = Some (s', t)" using t by (simp add: st1)
    then have "buckets st s' = Some a'" using pre by (auto simp: pre_inv_def inv_timer_def)
    then show "buckets st1 s' = Some a'" using None by (auto simp: st1)
  qed
  have p1: "pre_inv c st1" using 1 2 3 4 5 6 7 8 by (simp add: pre_inv_def)
  have o1: "\<forall>a'. a' \<noteq> a \<longrightarrow> reg_iff st1 a'"
  proof (intro allI impI)
    fix a' assume ne: "a' \<noteq> a"
    have "registered st1 a' = registered st a'"
      unfolding registered_def using ne None by (simp add: st1) (metis option.distinct(1))
    then have "reg_iff st1 a' = reg_iff st a'" using ne by (simp add: reg_iff_def st1)
    then show "reg_iff st1 a'" using regs by simp
  qed
  show ?thesis using p1 o1 by (simp add: st1 new_bucket_def)
qed

lemma enqueue_pre_inv:
  assumes pre: "pre_inv c st1" and reg: "buckets st1 s = Some a"
    and len: "int (length (queue (heap st1 a))) < maxQueuePerSession c"
    and that: "\<forall>h \<in> set hs. th_waiter h = w \<and> th_session h = s \<and> th_bucket h = a"
  shows "pre_inv c (st1\<lparr> next_waiter := nw, timeouts := timeouts st1 @ hs,
            heap := (heap st1)(a := (heap st1 a)\<lparr> queue := queue (heap st1 a) @ [w] \<rparr>) \<rparr>)"
proof -
  let ?st = "st1\<lparr> next_waiter := nw, timeouts := timeouts st1 @ hs,
            heap := (heap st1)(a := (heap st1 a)\<lparr> queue := queue (heap st1 a) @ [w] \<rparr>) \<rparr>"
  have 1: "inv_alloc ?st" using pre by (auto simp: pre_inv_def inv_alloc_def)
  have 2: "inv_inj ?st" using pre by (auto simp: pre_inv_def inv_inj_def)
  have 3: "inv_count ?st" using pre by (auto simp: pre_inv_def inv_count_def)
  have 4: "inv_qlen c ?st" using pre len by (auto simp: pre_inv_def inv_qlen_def)
  have 5: "inv_active c ?st" using pre by (auto simp: pre_inv_def inv_active_def)
  have 6: "inv_closures ?st" using pre by (auto simp: pre_inv_def inv_closures_def)
  have 7: "inv_timeouts ?st" using pre reg that by (auto simp: pre_inv_def inv_timeouts_def)
  have 8: "inv_timer ?st" using pre by (auto simp: pre_inv_def inv_timer_def)
  from 1 2 3 4 5 6 7 8 show ?thesis by (simp add: pre_inv_def)
qed


lemma acquireLocal_inv:
  assumes en: "enabled c" and mc: "1 \<le> maxConcurrent c" and mq: "1 \<le> maxQueuePerSession c"
    and inv: "limiter_inv c st"
  shows "limiter_inv c (snd (acquireLocal c now s st))"
proof -
  obtain a st1 where g: "getBucket s st = (a, st1)" by (cases "getBucket s st")
  note gi = getBucket_inv[OF inv g]
  have p1: "pre_inv c st1" and b1: "buckets st1 s = Some a"
    and o1: "\<forall>a'. a' \<noteq> a \<longrightarrow> reg_iff st1 a'" using gi by auto
  show ?thesis
  proof (cases "int (length (queue (heap st1 a))) \<ge> maxQueuePerSession c")
    case True
    then have "queue (heap st1 a) \<noteq> []" using mq by auto
    then have "buckets st s \<noteq> None" using gi by auto
    then have "st1 = st" using g by (auto simp: getBucket_def)
    then show ?thesis using True g inv by (simp add: acquireLocal_def)
  next
    case False
    define hs where "hs = (if queueTimeoutMs c > 0
        then [\<lparr> th_waiter = next_waiter st1, th_session = s, th_bucket = a,
                th_deadline = now + setTimeout_delay (queueTimeoutMs c) \<rparr>] else [])"
    define st3 where "st3 = st1\<lparr> next_waiter := Suc (next_waiter st1), timeouts := timeouts st1 @ hs,
        heap := (heap st1)(a := (heap st1 a)\<lparr> queue := queue (heap st1 a) @ [next_waiter st1] \<rparr>) \<rparr>"
    have hsw: "\<forall>h \<in> set hs. th_waiter h = next_waiter st1 \<and> th_session h = s \<and> th_bucket h = a"
      by (simp add: hs_def)
    have len: "int (length (queue (heap st1 a))) < maxQueuePerSession c" using False by simp
    have p3: "pre_inv c st3" unfolding st3_def by (rule enqueue_pre_inv[OF p1 b1 len hsw])
    have b3: "buckets st3 s = Some a" using b1 by (simp add: st3_def)
    have o3: "\<forall>a'. a' \<noteq> a \<longrightarrow> reg_iff st3 a'"
    proof (intro allI impI)
      fix a' assume "a' \<noteq> a"
      then have "reg_iff st3 a' = reg_iff st1 a'" by (intro reg_iff_frame) (simp_all add: st3_def)
      then show "reg_iff st3 a'" using o1 \<open>a' \<noteq> a\<close> by simp
    qed
    have "snd (acquireLocal c now s st) = processQueue c now s a st3"
      using False g by (simp add: acquireLocal_def Let_def st3_def hs_def)
    then show ?thesis using processQueue_inv[OF en mc p3 b3 o3] by simp
  qed
qed

lemma initial_inv:
  assumes "0 \<le> maxQueuePerSession c" "0 \<le> maxConcurrent c"
  shows "limiter_inv c initial"
  using assms
  by (simp add: limiter_inv_def pre_inv_def inv_alloc_def inv_inj_def inv_count_def inv_qlen_def
      inv_active_def inv_closures_def inv_timeouts_def inv_timer_def reg_iff_def registered_def
      idle_def initial_def new_bucket_def unreleased_at_def)

lemma fire_inv:
  assumes mc: "1 \<le> maxConcurrent c" and mq: "1 \<le> maxQueuePerSession c" and en: "enabled c"
    and inv: "limiter_inv c st"
  shows "limiter_inv c (fire c st e)"
proof -
  obtain now ev where e: "e = (now, ev)" by (cases e)
  show ?thesis
  proof (cases ev)
    case (Acquire s)
    then show ?thesis using e inv acquireLocal_inv[OF en mc mq inv] by simp
  next
    case (Release i)
    then show ?thesis using e release_inv[OF en mc inv] by simp
  next
    case (WaiterTimeout w)
    then show ?thesis using e inv waiterTimeout_inv[OF inv] by (simp split: option.splits)
  next
    case (RetryTimer a)
    then show ?thesis using e inv retryTimer_inv[OF en mc inv] by (simp split: option.splits prod.splits)
  qed
qed

lemma fire_disabled: "\<not> enabled c \<Longrightarrow> fire c initial e = initial"
proof -
  assume d: "\<not> enabled c"
  obtain now ev where e: "e = (now, ev)" by (cases e)
  show ?thesis using d e by (cases ev) (simp_all add: initial_def release_def new_bucket_def)
qed

lemma run_snoc: "run c (evs @ [e]) = fire c (run c evs) e"
  by (simp add: run_def)

lemma run_disabled: "\<not> enabled c \<Longrightarrow> run c evs = initial"
  by (induction evs rule: rev_induct) (simp_all add: run_def fire_disabled)

lemma run_inv_cfg:
  assumes mc: "1 \<le> maxConcurrent c" and mq: "1 \<le> maxQueuePerSession c"
  shows "limiter_inv c (run c evs)"
proof (cases "enabled c")
  case False
  then show ?thesis using initial_inv[of c] mc mq by (simp add: run_disabled)
next
  case True
  show ?thesis
  proof (induction evs rule: rev_induct)
    case Nil
    then show ?case using initial_inv[of c] mc mq by (simp add: run_def)
  next
    case (snoc e evs)
    then show ?case using fire_inv[OF mc mq True] by (simp add: run_snoc)
  qed
qed

lemma constructor_bounds:
  "0 \<le> minIntervalMs (constructor env)" "1 \<le> maxConcurrent (constructor env)"
  "1 \<le> maxQueuePerSession (constructor env)" "1000 \<le> queueTimeoutMs (constructor env)"
  by (simp_all add: constructor_def Let_def)

lemma run_inv: "limiter_inv (constructor env) (run (constructor env) evs)"
  by (rule run_inv_cfg) (rule constructor_bounds)+


lemma cfg0:
  "constructor env0 = \<lparr> enabled = True, minIntervalMs = 200, maxConcurrent = 20,
     maxQueuePerSession = 2000, queueTimeoutMs = 120000, useRedisDistributed = False, redisUrl = [],
     inflightTtlMs = 120000, redisPollIntervalMs = 60 \<rparr>"
  by (simp add: constructor_def env0_def parseIntWithDefault_def trim_def whiteSpace_def trimStart.simps)

lemma cfg2:
  "constructor env2 = \<lparr> enabled = True, minIntervalMs = 200, maxConcurrent = 2,
     maxQueuePerSession = 2, queueTimeoutMs = 120000, useRedisDistributed = False, redisUrl = [],
     inflightTtlMs = 120000, redisPollIntervalMs = 60 \<rparr>"
  by (simp add: constructor_def env2_def env0_def parseIntWithDefault_def trim_def whiteSpace_def trimStart.simps)

lemmas eval_local = run_def acquireLocal_def getBucket_def initial_def new_bucket_def processQueue.simps
  setTimeout_delay_def
  grant_def cleanupBucket_def Let_def release_def waiterTimeout_def retryTimer_def maskSession_def

section \<open>The concurrency bound\<close>





lemma script_store:
  "snd (REDIS_ACQUIRE_SCRIPT inflightKey intervalKey nowMs minInterval maxConc inflightTtl intervalTtl db) =
     (if GET_or_0 db inflightKey < maxConc \<and> GET_or_0 db intervalKey \<le> nowMs
      then PEXPIRE inflightKey inflightTtl
             (snd (INCR inflightKey (SET_PX intervalKey (nowMs + minInterval) intervalTtl db)))
      else db)"
  by (auto simp: REDIS_ACQUIRE_SCRIPT_def Let_def split: prod.splits)



section \<open>Buckets are registered exactly while they are busy\<close>

lemma run_pre_inv: "pre_inv (constructor env) (run (constructor env) evs)"
  using run_inv[of env evs] by (simp add: limiter_inv_def)

text \<open>
  Claim C9. After any sequence of local-mode operations (calls of \<^verbatim>\<open>acquire\<close>, calls
  of release closures, waiter timeouts, retry timers), a bucket object is in the registry
  if and only if its \<^verbatim>\<open>active\<close> count is positive, its queue is not empty or its retry
  timer is pending. The registry maps no two credentials to one bucket, and every
  closure that can still act (an unreleased release closure, an armed waiter timeout, a
  pending retry timer) holds the bucket that the registry has for its credential, so
  the bucket of the claim is the registered one.
\<close>

theorem C9_bucket_registered_iff_busy:
  "((\<exists>s. buckets (run (constructor env) evs) s = Some a) \<longleftrightarrow>
      (0 < active (heap (run (constructor env) evs) a) \<or>
       0 < length (queue (heap (run (constructor env) evs) a)) \<or>
       timer (heap (run (constructor env) evs) a) \<noteq> None)) \<and>
   inv_inj (run (constructor env) evs) \<and>
   inv_closures (run (constructor env) evs) \<and>
   inv_timeouts (run (constructor env) evs) \<and>
   inv_timer (run (constructor env) evs)"
proof -
  have "reg_iff (run (constructor env) evs) a"
    using run_inv[of env evs] by (simp add: limiter_inv_def)
  then have "(\<exists>s. buckets (run (constructor env) evs) s = Some a) \<longleftrightarrow>
      (0 < active (heap (run (constructor env) evs) a) \<or>
       0 < length (queue (heap (run (constructor env) evs) a)) \<or>
       timer (heap (run (constructor env) evs) a) \<noteq> None)"
    by (auto simp: reg_iff_def registered_def idle_def)
  then show ?thesis using run_pre_inv[of env evs] unfolding pre_inv_def by blast
qed

theorem C9_bucket_registered_iff_busy_witness:
  "(\<exists>s. buckets (run (constructor env0) [(1000, Acquire ''tok'')]) s = Some 0) \<and>
   active (heap (run (constructor env0) [(1000, Acquire ''tok'')]) 0) = 1 \<and>
   \<not> (\<exists>s. buckets (run (constructor env0) [(1000, Acquire ''tok''), (1010, Release 0)]) s = Some 0) \<and>
   active (heap (run (constructor env0) [(1000, Acquire ''tok''), (1010, Release 0)]) 0) = 0 \<and>
   queue (heap (run (constructor env0) [(1000, Acquire ''tok''), (1010, Release 0)]) 0) = [] \<and>
   timer (heap (run (constructor env0) [(1000, Acquire ''tok''), (1010, Release 0)]) 0) = None"
proof -
  have 1: "active (heap (run (constructor env0) [(1000, Acquire ''tok'')]) 0) = 1"
    by (simp add: cfg0 eval_local)
  have 2: "heap (run (constructor env0) [(1000, Acquire ''tok''), (1010, Release 0)]) 0 =
      \<lparr> active = 0, lastStartedAt = 1000, queue = [], timer = None \<rparr>"
    by (simp add: cfg0 eval_local)
  show ?thesis
    using C9_bucket_registered_iff_busy[of env0 "[(1000, Acquire ''tok'')]" 0]
      C9_bucket_registered_iff_busy[of env0 "[(1000, Acquire ''tok''), (1010, Release 0)]" 0] 1 2
    by simp
qed

section \<open>The bound of the wait queue\<close>

lemma acquireLocal_overflow:
  assumes "buckets st s = Some a" "maxQueuePerSession c \<le> int (length (queue (heap st a)))"
  shows "acquireLocal c now s st = (Inl (QueueOverflow (maskSession s) (maxQueuePerSession c)), st)"
  using assms by (simp add: acquireLocal_def getBucket_def)

lemma acquireLocal_frame:
  assumes inv: "limiter_inv c st" and s': "s' \<noteq> s" and b: "buckets st s' = Some a'"
  shows "heap (snd (acquireLocal c now s st)) a' = heap st a' \<and>
         buckets (snd (acquireLocal c now s st)) s' = Some a'"
proof -
  obtain a st1 where g: "getBucket s st = (a, st1)" by (cases "getBucket s st")
  have pre: "pre_inv c st" using inv by (simp add: limiter_inv_def)
  have ne: "a' \<noteq> a" and h1: "heap st1 a' = heap st a'" and b1: "buckets st1 s' = Some a'"
  proof -
    show "a' \<noteq> a"
    proof (cases "buckets st s")
      case None
      then have "a = next_addr st" using g by (simp add: getBucket_def)
      moreover have "a' < next_addr st" using pre b by (auto simp: pre_inv_def inv_alloc_def)
      ultimately show ?thesis by simp
    next
      case (Some x)
      then have "a = x" using g by (simp add: getBucket_def)
      then show ?thesis using pre b Some s' by (auto simp: pre_inv_def inv_inj_def)
    qed
    then show "heap st1 a' = heap st a'" using g by (auto simp: getBucket_def split: option.splits)
    show "buckets st1 s' = Some a'" using g b s' by (auto simp: getBucket_def split: option.splits)
  qed
  show ?thesis
  proof (cases "int (length (queue (heap st1 a))) \<ge> maxQueuePerSession c")
    case True
    then show ?thesis using g h1 b1 by (simp add: acquireLocal_def)
  next
    case False
    define hs where "hs = (if queueTimeoutMs c > 0
        then [\<lparr> th_waiter = next_waiter st1, th_session = s, th_bucket = a,
                th_deadline = now + setTimeout_delay (queueTimeoutMs c) \<rparr>] else [])"
    define st3 where "st3 = st1\<lparr> next_waiter := Suc (next_waiter st1), timeouts := timeouts st1 @ hs,
        heap := (heap st1)(a := (heap st1 a)\<lparr> queue := queue (heap st1 a) @ [next_waiter st1] \<rparr>) \<rparr>"
    have e: "snd (acquireLocal c now s st) = processQueue c now s a st3"
      using False g by (simp add: acquireLocal_def Let_def st3_def hs_def)
    have "heap st3 a' = heap st a'" "buckets st3 s' = Some a'"
      using ne h1 b1 by (simp_all add: st3_def)
    then show ?thesis unfolding e using processQueue_frame[of c now s a st3] ne s' by auto
  qed
qed

text \<open>
  Claim C4. A call of \<^verbatim>\<open>acquireLocal\<close> for a credential whose queue already holds
  \<^verbatim>\<open>maxQueuePerSession\<close> waiters returns the overflow error and leaves the whole
  limiter state as it is; after any sequence of events no queue is longer than
  \<^verbatim>\<open>maxQueuePerSession\<close>; and a call of \<^verbatim>\<open>acquireLocal\<close> for one credential changes
  neither the bucket nor the registration of another credential.
\<close>

theorem C4_queue_overflow_rejected:
  "(buckets st sessionId = Some a \<longrightarrow> maxQueuePerSession c \<le> int (length (queue (heap st a))) \<longrightarrow>
      acquireLocal c now sessionId st = (Inl (QueueOverflow (maskSession sessionId) (maxQueuePerSession c)), st)) \<and>
   int (length (queue (heap (run (constructor env) evs) a'))) \<le> maxQueuePerSession (constructor env) \<and>
   (other \<noteq> sessionId \<longrightarrow> buckets (run (constructor env) evs) other = Some a' \<longrightarrow>
      heap (snd (acquireLocal (constructor env) now sessionId (run (constructor env) evs))) a'
        = heap (run (constructor env) evs) a' \<and>
      buckets (snd (acquireLocal (constructor env) now sessionId (run (constructor env) evs))) other = Some a')"
  using acquireLocal_overflow[of st sessionId a c now] pre_inv_qlen[OF run_pre_inv, of env evs a']
    acquireLocal_frame[OF run_inv, of other sessionId env evs a' now]
  by blast

theorem C4_queue_overflow_rejected_witness:
  "buckets (run (constructor env2) [(1000, Acquire ''tok''), (1001, Acquire ''tok''), (1002, Acquire ''tok'')]) ''tok'' = Some 0 \<and>
   queue (heap (run (constructor env2) [(1000, Acquire ''tok''), (1001, Acquire ''tok''), (1002, Acquire ''tok'')]) 0) = [1, 2] \<and>
   acquireLocal (constructor env2) 1004 ''tok''
      (run (constructor env2) [(1000, Acquire ''tok''), (1001, Acquire ''tok''), (1002, Acquire ''tok'')])
     = (Inl (QueueOverflow ''***'' 2),
        run (constructor env2) [(1000, Acquire ''tok''), (1001, Acquire ''tok''), (1002, Acquire ''tok'')]) \<and>
   ''other'' \<noteq> ''tok'' \<and>
   buckets (run (constructor env2) [(1000, Acquire ''other'')]) ''other'' = Some 0 \<and>
   fst (acquireLocal (constructor env2) 1004 ''tok'' (run (constructor env2) [(1000, Acquire ''other'')])) = Inr 1 \<and>
   heap (snd (acquireLocal (constructor env2) 1004 ''tok'' (run (constructor env2) [(1000, Acquire ''other'')]))) 0
     = \<lparr> active = 1, lastStartedAt = 1000, queue = [], timer = None \<rparr> \<and>
   buckets (snd (acquireLocal (constructor env2) 1004 ''tok'' (run (constructor env2) [(1000, Acquire ''other'')]))) ''other''
     = Some 0"
proof -
  let ?st = "run (constructor env2) [(1000, Acquire ''tok''), (1001, Acquire ''tok''), (1002, Acquire ''tok'')]"
  let ?so = "run (constructor env2) [(1000, Acquire ''other'')]"
  have b: "buckets ?st ''tok'' = Some 0" by (simp add: cfg2 eval_local)
  have q: "queue (heap ?st 0) = [1, 2]" by (simp add: cfg2 eval_local)
  have o: "buckets ?so ''other'' = Some 0" by (simp add: cfg2 eval_local)
  have h: "heap ?so 0 = \<lparr> active = 1, lastStartedAt = 1000, queue = [], timer = None \<rparr>"
    by (simp add: cfg2 eval_local)
  have f: "fst (acquireLocal (constructor env2) 1004 ''tok'' ?so) = Inr 1"
    by (simp add: cfg2 eval_local)
  have m: "maxQueuePerSession (constructor env2) = 2" by (simp add: cfg2)
  show ?thesis
    using C4_queue_overflow_rejected[where st = ?st and sessionId = "''tok''" and a = 0
        and c = "constructor env2" and now = 1004 and env = env2
        and evs = "[(1000, Acquire ''other'')]" and a' = 0 and other = "''other''"]
      b q o h f m
    by (simp add: maskSession_def)
qed

section \<open>What \<^verbatim>\<open>processQueue\<close> grants, and the release closures\<close>















section \<open>Waiter timeouts\<close>












lemma poll_loop_deadline:
  "deadlineAt \<le> p_now p \<Longrightarrow>
   poll_loop c s keys deadlineAt ttl (p # ps) = Some (Inl (WaitTimeout (maskSession s) (queueTimeoutMs c)))"
  by simp

lemma poll_loop_times_out:
  assumes "\<forall>p \<in> set polls. denied c keys ttl p"
    and "\<exists>p \<in> set polls. deadlineAt \<le> p_now p \<or> deadlineAt \<le> p_after p"
  shows "poll_loop c s keys deadlineAt ttl polls = Some (Inl (WaitTimeout (maskSession s) (queueTimeoutMs c)))"
  using assms
proof (induction polls)
  case Nil
  then show ?case by simp
next
  case (Cons p ps)
  show ?case
  proof (cases "deadlineAt \<le> p_now p \<or> deadlineAt \<le> p_after p")
    case True
    then show ?thesis using Cons.prems(1)
      by (auto simp: denied_def split: sum.splits prod.splits)
  next
    case False
    then have "\<exists>p \<in> set ps. deadlineAt \<le> p_now p \<or> deadlineAt \<le> p_after p"
      using Cons.prems(2) by auto
    then have "poll_loop c s keys deadlineAt ttl ps = Some (Inl (WaitTimeout (maskSession s) (queueTimeoutMs c)))"
      using Cons.IH Cons.prems(1) by simp
    then show ?thesis using False Cons.prems(1)
      by (auto simp: denied_def split: sum.splits prod.splits)
  qed
qed



section \<open>The scripts of the distributed mode\<close>

lemma keys_distinct: "fst (getRedisKeys sha1 s) \<noteq> snd (getRedisKeys sha1 s)"
  by (simp add: getRedisKeys_def REDIS_KEY_PREFIX_def)

lemma script_granted_iff:
  "granted_flag (fst (REDIS_ACQUIRE_SCRIPT ik nk nowMs mi mc it nt db)) = 1 \<longleftrightarrow>
     GET_or_0 db ik < mc \<and> GET_or_0 db nk \<le> nowMs"
  by (auto simp: REDIS_ACQUIRE_SCRIPT_def Let_def split: prod.splits)

lemma script_denied:
  "granted_flag (fst (REDIS_ACQUIRE_SCRIPT ik nk nowMs mi mc it nt db)) \<noteq> 1 \<Longrightarrow>
   granted_flag (fst (REDIS_ACQUIRE_SCRIPT ik nk nowMs mi mc it nt db)) = 0 \<and>
   snd (REDIS_ACQUIRE_SCRIPT ik nk nowMs mi mc it nt db) = db"
  by (auto simp: REDIS_ACQUIRE_SCRIPT_def Let_def split: prod.splits if_splits)

lemma script_granted_store:
  assumes "ik \<noteq> nk" "granted_flag (fst (REDIS_ACQUIRE_SCRIPT ik nk nowMs mi mc it nt db)) = 1"
  shows "snd (REDIS_ACQUIRE_SCRIPT ik nk nowMs mi mc it nt db) ik =
           Some \<lparr> re_value = GET_or_0 db ik + 1, re_px = Some it \<rparr> \<and>
         snd (REDIS_ACQUIRE_SCRIPT ik nk nowMs mi mc it nt db) nk =
           Some \<lparr> re_value = nowMs + mi, re_px = Some nt \<rparr> \<and>
         (\<forall>k. k \<noteq> ik \<longrightarrow> k \<noteq> nk \<longrightarrow> snd (REDIS_ACQUIRE_SCRIPT ik nk nowMs mi mc it nt db) k = db k) \<and>
         inflight_now (fst (REDIS_ACQUIRE_SCRIPT ik nk nowMs mi mc it nt db)) = GET_or_0 db ik + 1"
proof -
  have g: "GET_or_0 db ik < mc \<and> GET_or_0 db nk \<le> nowMs" using assms(2) by (simp add: script_granted_iff)
  show ?thesis
    using assms(1) g
    by (auto simp: REDIS_ACQUIRE_SCRIPT_def Let_def GET_or_0_def SET_PX_def INCR_def PEXPIRE_def
        split: prod.splits option.splits)
qed

lemma release_script_store:
  "(GET_or_0 db ik \<le> 1 \<longrightarrow> snd (REDIS_RELEASE_SCRIPT ik db) ik = None) \<and>
   (1 < GET_or_0 db ik \<longrightarrow> GET_or_0 (snd (REDIS_RELEASE_SCRIPT ik db)) ik = GET_or_0 db ik - 1) \<and>
   (\<forall>k. k \<noteq> ik \<longrightarrow> snd (REDIS_RELEASE_SCRIPT ik db) k = db k)"
  by (auto simp: REDIS_RELEASE_SCRIPT_def GET_or_0_def DEL_def DECR_def split: option.splits)

lemma poll_loop_granted:
  assumes "poll_loop c s keys deadlineAt ttl polls = Some (Inr (k, db'))"
  shows "k = fst keys \<and>
         (\<exists>p \<in> set polls. \<exists>db. p_eval p = Inr db \<and> p_now p < deadlineAt \<and>
             granted_flag (fst (REDIS_ACQUIRE_SCRIPT (fst keys) (snd keys) (p_now p) (minIntervalMs c)
                                 (maxConcurrent c) (inflightTtlMs c) ttl db)) = 1 \<and>
             db' = snd (REDIS_ACQUIRE_SCRIPT (fst keys) (snd keys) (p_now p) (minIntervalMs c)
                          (maxConcurrent c) (inflightTtlMs c) ttl db))"
  using assms
proof (induction polls)
  case Nil
  then show ?case by simp
next
  case (Cons p ps)
  show ?case
  proof (cases "deadlineAt \<le> p_now p")
    case True
    then show ?thesis using Cons.prems by simp
  next
    case False
    show ?thesis
    proof (cases "p_eval p")
      case (Inl msg)
      then show ?thesis using Cons.prems False by simp
    next
      case (Inr db)
      let ?r = "REDIS_ACQUIRE_SCRIPT (fst keys) (snd keys) (p_now p) (minIntervalMs c)
                                 (maxConcurrent c) (inflightTtlMs c) ttl db"
      show ?thesis
      proof (cases "granted_flag (fst ?r) = 1")
        case True
        then have "k = fst keys" "db' = snd ?r"
          using Cons.prems False Inr by (auto split: prod.splits)
        then show ?thesis using True False Inr by auto
      next
        case F2: False
        then have "poll_loop c s keys deadlineAt ttl ps = Some (Inr (k, db'))"
          using Cons.prems False Inr by (auto split: prod.splits if_splits)
        then show ?thesis using Cons.IH by auto
      qed
    qed
  qed
qed

lemma keys_form:
  "fst (getRedisKeys sha1 s) = ''jimeng:session_rl:inflight:'' @ sha1 s"
  "snd (getRedisKeys sha1 s) = ''jimeng:session_rl:next:'' @ sha1 s"
  by (simp_all add: getRedisKeys_def REDIS_KEY_PREFIX_def)

lemma keys_separate:
  assumes "sha1 s \<noteq> sha1 s'"
  shows "fst (getRedisKeys sha1 s') \<noteq> fst (getRedisKeys sha1 s)"
    "fst (getRedisKeys sha1 s') \<noteq> snd (getRedisKeys sha1 s)"
    "snd (getRedisKeys sha1 s') \<noteq> fst (getRedisKeys sha1 s)"
    "snd (getRedisKeys sha1 s') \<noteq> snd (getRedisKeys sha1 s)"
  using assms by (auto simp: keys_form)

lemma script_frame:
  "k \<noteq> ik \<Longrightarrow> k \<noteq> nk \<Longrightarrow> snd (REDIS_ACQUIRE_SCRIPT ik nk nowMs mi mc it nt db) k = db k"
  by (auto simp: script_store PEXPIRE_def INCR_def SET_PX_def split: option.splits)

lemma release_script_frame:
  "k \<noteq> ik \<Longrightarrow> snd (REDIS_RELEASE_SCRIPT ik db) k = db k"
  using release_script_store[of db ik] by blast

lemma release_script_reply:
  "fst (REDIS_RELEASE_SCRIPT ik db) = (if GET_or_0 db ik \<le> 1 then 0 else GET_or_0 db ik - 1)"
  by (auto simp: REDIS_RELEASE_SCRIPT_def GET_or_0_def DECR_def split: option.splits)

lemma record_other_credential:
  assumes "sha1 s \<noteq> sha1 s'"
  shows "admission_record sha1 s' (snd (REDIS_ACQUIRE_SCRIPT (fst (getRedisKeys sha1 s)) (snd (getRedisKeys sha1 s))
                                          nowMs mi mc it nt db)) = admission_record sha1 s' db"
    and "admission_record sha1 s' (snd (REDIS_RELEASE_SCRIPT (fst (getRedisKeys sha1 s)) db)) =
           admission_record sha1 s' db"
  using assms keys_separate[of sha1 s s']
  by (simp_all add: admission_record_def script_frame release_script_frame)


text \<open>
  Claim C3. The admission record of a credential is the pair of entries under its two
  keys, which embed the digest of the credential: the keys of one credential differ from
  each other, and from both keys of a credential with another digest, so a script run for
  one credential leaves the record of the other as it is. One run of the acquire script
  (one step of the store) grants exactly when the in-flight counter is below
  \<^verbatim>\<open>maxConcurrent\<close> and next-allowed-at is not after \<open>now\<close>; on a grant the store it
  leaves holds the counter raised by one with the time to live \<^verbatim>\<open>inflightTtlMs\<close> and
  next-allowed-at set to \<open>now + minIntervalMs\<close> (with the time to live of the interval
  key), every other key as before; on a denial it leaves the store as it was. The release
  script deletes the counter when it is at most 1 and lowers it by one otherwise, and
  touches no other key: the next-allowed-at entry of the record stays in the store. A
  grant returned by \<^verbatim>\<open>acquireDistributed\<close> is the result of one such run, in a pass that
  started before the deadline, with the settings of the limiter.
\<close>

theorem C3_atomic_check_and_set:
  "fst (getRedisKeys sha1 s) = ''jimeng:session_rl:inflight:'' @ sha1 s \<and>
   snd (getRedisKeys sha1 s) = ''jimeng:session_rl:next:'' @ sha1 s \<and>
   fst (getRedisKeys sha1 s) \<noteq> snd (getRedisKeys sha1 s) \<and>
   (sha1 s \<noteq> sha1 s' \<longrightarrow>
      fst (getRedisKeys sha1 s') \<noteq> fst (getRedisKeys sha1 s) \<and>
      fst (getRedisKeys sha1 s') \<noteq> snd (getRedisKeys sha1 s) \<and>
      snd (getRedisKeys sha1 s') \<noteq> fst (getRedisKeys sha1 s) \<and>
      snd (getRedisKeys sha1 s') \<noteq> snd (getRedisKeys sha1 s) \<and>
      admission_record sha1 s'
          (snd (REDIS_ACQUIRE_SCRIPT (fst (getRedisKeys sha1 s)) (snd (getRedisKeys sha1 s)) nowMs mi mc it nt db)) =
        admission_record sha1 s' db \<and>
      admission_record sha1 s' (snd (REDIS_RELEASE_SCRIPT (fst (getRedisKeys sha1 s)) db)) =
        admission_record sha1 s' db) \<and>
   (granted_flag (fst (REDIS_ACQUIRE_SCRIPT (fst (getRedisKeys sha1 s)) (snd (getRedisKeys sha1 s))
                        nowMs mi mc it nt db)) = 1 \<longleftrightarrow>
      GET_or_0 db (fst (getRedisKeys sha1 s)) < mc \<and> GET_or_0 db (snd (getRedisKeys sha1 s)) \<le> nowMs) \<and>
   (granted_flag (fst (REDIS_ACQUIRE_SCRIPT (fst (getRedisKeys sha1 s)) (snd (getRedisKeys sha1 s))
                        nowMs mi mc it nt db)) = 1 \<longrightarrow>
      snd (REDIS_ACQUIRE_SCRIPT (fst (getRedisKeys sha1 s)) (snd (getRedisKeys sha1 s)) nowMs mi mc it nt db)
          (fst (getRedisKeys sha1 s)) =
        Some \<lparr> re_value = GET_or_0 db (fst (getRedisKeys sha1 s)) + 1, re_px = Some it \<rparr> \<and>
      snd (REDIS_ACQUIRE_SCRIPT (fst (getRedisKeys sha1 s)) (snd (getRedisKeys sha1 s)) nowMs mi mc it nt db)
          (snd (getRedisKeys sha1 s)) =
        Some \<lparr> re_value = nowMs + mi, re_px = Some nt \<rparr> \<and>
      (\<forall>k. k \<noteq> fst (getRedisKeys sha1 s) \<longrightarrow> k \<noteq> snd (getRedisKeys sha1 s) \<longrightarrow>
         snd (REDIS_ACQUIRE_SCRIPT (fst (getRedisKeys sha1 s)) (snd (getRedisKeys sha1 s)) nowMs mi mc it nt db) k
           = db k)) \<and>
   (granted_flag (fst (REDIS_ACQUIRE_SCRIPT (fst (getRedisKeys sha1 s)) (snd (getRedisKeys sha1 s))
                        nowMs mi mc it nt db)) \<noteq> 1 \<longrightarrow>
      granted_flag (fst (REDIS_ACQUIRE_SCRIPT (fst (getRedisKeys sha1 s)) (snd (getRedisKeys sha1 s))
                        nowMs mi mc it nt db)) = 0 \<and>
      snd (REDIS_ACQUIRE_SCRIPT (fst (getRedisKeys sha1 s)) (snd (getRedisKeys sha1 s)) nowMs mi mc it nt db) = db) \<and>
   (GET_or_0 db (fst (getRedisKeys sha1 s)) \<le> 1 \<longrightarrow>
      snd (REDIS_RELEASE_SCRIPT (fst (getRedisKeys sha1 s)) db) (fst (getRedisKeys sha1 s)) = None) \<and>
   (1 < GET_or_0 db (fst (getRedisKeys sha1 s)) \<longrightarrow>
      GET_or_0 (snd (REDIS_RELEASE_SCRIPT (fst (getRedisKeys sha1 s)) db)) (fst (getRedisKeys sha1 s)) =
        GET_or_0 db (fst (getRedisKeys sha1 s)) - 1) \<and>
   fst (REDIS_RELEASE_SCRIPT (fst (getRedisKeys sha1 s)) db) =
     (if GET_or_0 db (fst (getRedisKeys sha1 s)) \<le> 1 then 0 else GET_or_0 db (fst (getRedisKeys sha1 s)) - 1) \<and>
   snd (REDIS_RELEASE_SCRIPT (fst (getRedisKeys sha1 s)) db) (snd (getRedisKeys sha1 s)) =
     db (snd (getRedisKeys sha1 s)) \<and>
   (\<forall>k. k \<noteq> fst (getRedisKeys sha1 s) \<longrightarrow>
      snd (REDIS_RELEASE_SCRIPT (fst (getRedisKeys sha1 s)) db) k = db k) \<and>
   (acquireDistributed c sha1 s startedAt polls = Some (Inr (key, db')) \<longrightarrow>
      key = fst (getRedisKeys sha1 s) \<and>
      (\<exists>p \<in> set polls. \<exists>db0. p_eval p = Inr db0 \<and> p_now p < startedAt + queueTimeoutMs c \<and>
          GET_or_0 db0 (fst (getRedisKeys sha1 s)) < maxConcurrent c \<and>
          GET_or_0 db0 (snd (getRedisKeys sha1 s)) \<le> p_now p \<and>
          db' = snd (REDIS_ACQUIRE_SCRIPT (fst (getRedisKeys sha1 s)) (snd (getRedisKeys sha1 s)) (p_now p)
                       (minIntervalMs c) (maxConcurrent c) (inflightTtlMs c)
                       (max (minIntervalMs c * 50) 60000) db0)))"
proof -
  let ?ik = "fst (getRedisKeys sha1 s)" and ?nk = "snd (getRedisKeys sha1 s)"
  note 1 = script_granted_iff[of ?ik ?nk nowMs mi mc it nt db]
  note 2 = script_granted_store[OF keys_distinct, of sha1 s nowMs mi mc it nt db]
  note 3 = script_denied[of ?ik ?nk nowMs mi mc it nt db]
  note 4 = release_script_store[of db ?ik]
  have 5: "key = ?ik \<and>
      (\<exists>p \<in> set polls. \<exists>db0. p_eval p = Inr db0 \<and> p_now p < startedAt + queueTimeoutMs c \<and>
          GET_or_0 db0 ?ik < maxConcurrent c \<and> GET_or_0 db0 ?nk \<le> p_now p \<and>
          db' = snd (REDIS_ACQUIRE_SCRIPT ?ik ?nk (p_now p)
                       (minIntervalMs c) (maxConcurrent c) (inflightTtlMs c)
                       (max (minIntervalMs c * 50) 60000) db0))"
    if "acquireDistributed c sha1 s startedAt polls = Some (Inr (key, db'))"
    using poll_loop_granted[OF that[unfolded acquireDistributed_def]] by (simp add: script_granted_iff)
  note 6 = keys_form[of sha1 s] keys_distinct[of sha1 s]
  have 7: "fst (getRedisKeys sha1 s') \<noteq> ?ik \<and> fst (getRedisKeys sha1 s') \<noteq> ?nk \<and>
      snd (getRedisKeys sha1 s') \<noteq> ?ik \<and> snd (getRedisKeys sha1 s') \<noteq> ?nk \<and>
      admission_record sha1 s' (snd (REDIS_ACQUIRE_SCRIPT ?ik ?nk nowMs mi mc it nt db)) =
        admission_record sha1 s' db \<and>
      admission_record sha1 s' (snd (REDIS_RELEASE_SCRIPT ?ik db)) = admission_record sha1 s' db"
    if "sha1 s \<noteq> sha1 s'"
    using that keys_separate[of sha1 s s'] record_other_credential[of sha1 s s'] by blast
  note 8 = release_script_reply[of ?ik db]
  have 9: "snd (REDIS_RELEASE_SCRIPT ?ik db) ?nk = db ?nk"
    using keys_distinct[of sha1 s] by (simp add: release_script_frame)
  have A: "?ik = ''jimeng:session_rl:inflight:'' @ sha1 s \<and> ?nk = ''jimeng:session_rl:next:'' @ sha1 s \<and> ?ik \<noteq> ?nk"
    using 6 by blast
  show ?thesis
    apply (intro conjI)
    using A apply blast
    using A apply blast
    using A apply blast
    using 7 apply blast
    using 1 apply blast
    using 2 apply blast
    using 3 apply blast
    using 4 apply blast
    using 4 apply blast
    using 8 apply blast
    using 9 apply blast
    using 4 apply blast
    using 5 apply blast
    done
qed


theorem C3_atomic_check_and_set_witness:
  "granted_flag (fst (REDIS_ACQUIRE_SCRIPT ''jimeng:session_rl:inflight:tok'' ''jimeng:session_rl:next:tok''
                        5000 200 20 120000 60000 db_empty)) = 1 \<and>
   snd (REDIS_ACQUIRE_SCRIPT ''jimeng:session_rl:inflight:tok'' ''jimeng:session_rl:next:tok''
          5000 200 20 120000 60000 db_empty) ''jimeng:session_rl:inflight:tok''
     = Some \<lparr> re_value = 1, re_px = Some 120000 \<rparr> \<and>
   snd (REDIS_ACQUIRE_SCRIPT ''jimeng:session_rl:inflight:tok'' ''jimeng:session_rl:next:tok''
          5000 200 20 120000 60000 db_empty) ''jimeng:session_rl:next:tok''
     = Some \<lparr> re_value = 5200, re_px = Some 60000 \<rparr> \<and>
   GET_or_0 db_empty ''jimeng:session_rl:inflight:tok'' \<le> 1 \<and>
   snd (REDIS_RELEASE_SCRIPT ''jimeng:session_rl:inflight:tok'' db_empty) ''jimeng:session_rl:inflight:tok'' = None \<and>
   granted_flag (fst (REDIS_ACQUIRE_SCRIPT ''jimeng:session_rl:inflight:tok'' ''jimeng:session_rl:next:tok''
                        5000 200 20 120000 60000 db_tok)) = 0 \<and>
   snd (REDIS_ACQUIRE_SCRIPT ''jimeng:session_rl:inflight:tok'' ''jimeng:session_rl:next:tok''
          5000 200 20 120000 60000 db_tok) = db_tok \<and>
   1 < GET_or_0 db_tok ''jimeng:session_rl:inflight:tok'' \<and>
   GET_or_0 (snd (REDIS_RELEASE_SCRIPT ''jimeng:session_rl:inflight:tok'' db_tok)) ''jimeng:session_rl:inflight:tok'' = 19 \<and>
   fst (REDIS_RELEASE_SCRIPT ''jimeng:session_rl:inflight:tok'' db_tok) = 19 \<and>
   digest0 ''other'' \<noteq> digest0 ''tok'' \<and>
   granted_flag (fst (REDIS_ACQUIRE_SCRIPT ''jimeng:session_rl:inflight:other'' ''jimeng:session_rl:next:other''
                        5000 200 20 120000 60000 db_tok)) = 1 \<and>
   admission_record digest0 ''tok''
       (snd (REDIS_ACQUIRE_SCRIPT ''jimeng:session_rl:inflight:other'' ''jimeng:session_rl:next:other''
               5000 200 20 120000 60000 db_tok))
     = (Some \<lparr> re_value = 20, re_px = Some 120000 \<rparr>, None) \<and>
   admission_record digest0 ''tok'' (snd (REDIS_RELEASE_SCRIPT ''jimeng:session_rl:inflight:other'' db_tok))
     = (Some \<lparr> re_value = 20, re_px = Some 120000 \<rparr>, None) \<and>
   acquireDistributed (constructor env0) digest0 ''tok'' 0 [\<lparr> p_now = 5000, p_eval = Inr db_empty, p_after = 5001 \<rparr>]
     = Some (Inr (''jimeng:session_rl:inflight:tok'',
                  snd (REDIS_ACQUIRE_SCRIPT ''jimeng:session_rl:inflight:tok'' ''jimeng:session_rl:next:tok''
                         5000 200 20 120000 60000 db_empty)))"
proof -
  let ?ik = "''jimeng:session_rl:inflight:tok''" and ?nk = "''jimeng:session_rl:next:tok''"
  let ?io = "''jimeng:session_rl:inflight:other''" and ?no = "''jimeng:session_rl:next:other''"
  let ?p = "\<lparr> p_now = 5000, p_eval = Inr db_empty, p_after = 5001 \<rparr>"
  have k: "fst (getRedisKeys digest0 ''tok'') = ?ik" "snd (getRedisKeys digest0 ''tok'') = ?nk"
    "fst (getRedisKeys digest0 ''other'') = ?io" "snd (getRedisKeys digest0 ''other'') = ?no"
    by (simp_all add: getRedisKeys_def digest0_def REDIS_KEY_PREFIX_def)
  have g: "GET_or_0 db_empty ?ik = 0" "GET_or_0 db_empty ?nk = 0" "GET_or_0 db_tok ?ik = 20"
    "GET_or_0 db_tok ?io = 0" "GET_or_0 db_tok ?no = 0"
    by (simp_all add: GET_or_0_def db_empty_def db_tok_def)
  have d: "digest0 ''other'' \<noteq> digest0 ''tok''" by (simp add: digest0_def)
  have r: "admission_record digest0 ''tok'' db_tok = (Some \<lparr> re_value = 20, re_px = Some 120000 \<rparr>, None)"
    by (simp add: admission_record_def k db_tok_def)
  have a: "acquireDistributed (constructor env0) digest0 ''tok'' 0 [?p]
     = Some (Inr (?ik, snd (REDIS_ACQUIRE_SCRIPT ?ik ?nk 5000 200 20 120000 60000 db_empty)))"
    by (simp add: acquireDistributed_def cfg0 k script_granted_iff g case_prod_beta)
  note T1 = C3_atomic_check_and_set[where ?sha1.0 = digest0 and s = "''tok''" and nowMs = 5000 and mi = 200
      and mc = 20 and it = 120000 and nt = 60000 and db = db_empty and c = "constructor env0"
      and startedAt = 0 and polls = "[?p]" and key = ?ik and s' = "''tok''"
      and db' = "snd (REDIS_ACQUIRE_SCRIPT ?ik ?nk 5000 200 20 120000 60000 db_empty)", unfolded k]
  note T2 = C3_atomic_check_and_set[where ?sha1.0 = digest0 and s = "''tok''" and nowMs = 5000 and mi = 200
      and mc = 20 and it = 120000 and nt = 60000 and db = db_tok and c = "constructor env0"
      and startedAt = 0 and polls = "[]" and s' = "''tok''", unfolded k]
  note T3 = C3_atomic_check_and_set[where ?sha1.0 = digest0 and s = "''other''" and nowMs = 5000 and mi = 200
      and mc = 20 and it = 120000 and nt = 60000 and db = db_tok and c = "constructor env0"
      and startedAt = 0 and polls = "[]" and s' = "''tok''", unfolded k]
  have t1: "granted_flag (fst (REDIS_ACQUIRE_SCRIPT ?ik ?nk 5000 200 20 120000 60000 db_empty)) = 1"
    using T1 g by simp
  have t2: "snd (REDIS_ACQUIRE_SCRIPT ?ik ?nk 5000 200 20 120000 60000 db_empty) ?ik
       = Some \<lparr> re_value = 1, re_px = Some 120000 \<rparr>"
    "snd (REDIS_ACQUIRE_SCRIPT ?ik ?nk 5000 200 20 120000 60000 db_empty) ?nk
       = Some \<lparr> re_value = 5200, re_px = Some 60000 \<rparr>"
    using T1 t1 g by simp_all
  have t3: "snd (REDIS_RELEASE_SCRIPT ?ik db_empty) ?ik = None" using T1 g by simp
  have t4: "granted_flag (fst (REDIS_ACQUIRE_SCRIPT ?ik ?nk 5000 200 20 120000 60000 db_tok)) = 0"
    "snd (REDIS_ACQUIRE_SCRIPT ?ik ?nk 5000 200 20 120000 60000 db_tok) = db_tok"
    using T2 g by simp_all
  have t5: "GET_or_0 (snd (REDIS_RELEASE_SCRIPT ?ik db_tok)) ?ik = 19"
    "fst (REDIS_RELEASE_SCRIPT ?ik db_tok) = 19" using T2 g by simp_all
  have t6: "granted_flag (fst (REDIS_ACQUIRE_SCRIPT ?io ?no 5000 200 20 120000 60000 db_tok)) = 1"
    using T3 g by simp
  have t7: "admission_record digest0 ''tok'' (snd (REDIS_ACQUIRE_SCRIPT ?io ?no 5000 200 20 120000 60000 db_tok))
       = (Some \<lparr> re_value = 20, re_px = Some 120000 \<rparr>, None)"
    "admission_record digest0 ''tok'' (snd (REDIS_RELEASE_SCRIPT ?io db_tok))
       = (Some \<lparr> re_value = 20, re_px = Some 120000 \<rparr>, None)"
    using T3 d r by simp_all
  show ?thesis using t1 t2 t3 t4 t5 t6 t7 d a g by simp
qed

text \<open>
  Claim C3 as the specification words it has the release delete the record when the
  count reaches zero. The release script leaves a part of the record behind: in the store left by one grant
  to the credential \<open>tok\<close> at time 1000, the in-flight counter stands at 1; the
  release script replies 0 and deletes the counter, and the next-allowed-at entry of
  the same record is still in the store.
\<close>

theorem C3_release_keeps_next_allowed_at:
  "admission_record digest0 ''tok'' db_one =
     (Some \<lparr> re_value = 1, re_px = Some 120000 \<rparr>, Some \<lparr> re_value = 1200, re_px = Some 60000 \<rparr>) \<and>
   fst (REDIS_RELEASE_SCRIPT (fst (getRedisKeys digest0 ''tok'')) db_one) = 0 \<and>
   admission_record digest0 ''tok'' (snd (REDIS_RELEASE_SCRIPT (fst (getRedisKeys digest0 ''tok'')) db_one)) =
     (None, Some \<lparr> re_value = 1200, re_px = Some 60000 \<rparr>) \<and>
   \<not> admission_record digest0 ''tok'' (snd (REDIS_RELEASE_SCRIPT (fst (getRedisKeys digest0 ''tok'')) db_one)) =
       (None, None)"
  by (simp add: admission_record_def getRedisKeys_def digest0_def REDIS_KEY_PREFIX_def db_one_def db_empty_def
      REDIS_ACQUIRE_SCRIPT_def REDIS_RELEASE_SCRIPT_def GET_or_0_def SET_PX_def INCR_def PEXPIRE_def DEL_def
      DECR_def Let_def)

section \<open>The concurrency bound over calls of \<^verbatim>\<open>acquire\<close>\<close>




















section \<open>The deadline of a wait\<close>













section \<open>Falling back to local admission\<close>

text \<open>
  Claim C6. When the limiter is enabled, the credential is not empty and a client is at
  hand, every error that \<^verbatim>\<open>acquireDistributed\<close> throws (an exception of
  \<^verbatim>\<open>redis.eval\<close>, and also the timeout of the polling loop) is logged as one warning
  and not passed on: the caller gets what \<^verbatim>\<open>acquireLocal\<close> gives for that call, and the
  limiter state is the one \<^verbatim>\<open>acquireLocal\<close> leaves. Without a client the call is
  admitted locally with no warning from \<^verbatim>\<open>acquire\<close>.
\<close>

theorem C6_fallback_to_local:
  "(enabled c \<longrightarrow> sessionId \<noteq> [] \<longrightarrow> acquireDistributed c sha1 sessionId now polls = Some (Inl err) \<longrightarrow>
      acquire c sha1 True now nowLocal sessionId polls st =
        \<lparr> ar_outcome = Some (Local (fst (acquireLocal c nowLocal sessionId st))),
          ar_state = snd (acquireLocal c nowLocal sessionId st),
          ar_warnings = [err] \<rparr>) \<and>
   (enabled c \<longrightarrow> sessionId \<noteq> [] \<longrightarrow> p_now p < now + queueTimeoutMs c \<longrightarrow> p_eval p = Inl msg \<longrightarrow>
      acquire c sha1 True now nowLocal sessionId (p # ps) st =
        \<lparr> ar_outcome = Some (Local (fst (acquireLocal c nowLocal sessionId st))),
          ar_state = snd (acquireLocal c nowLocal sessionId st),
          ar_warnings = [RedisError msg] \<rparr>) \<and>
   (enabled c \<longrightarrow> sessionId \<noteq> [] \<longrightarrow>
    (\<forall>q \<in> set polls. denied c (getRedisKeys sha1 sessionId) (max (minIntervalMs c * 50) 60000) q) \<longrightarrow>
    (\<exists>q \<in> set polls. now + queueTimeoutMs c \<le> p_now q \<or> now + queueTimeoutMs c \<le> p_after q) \<longrightarrow>
      acquire c sha1 True now nowLocal sessionId polls st =
        \<lparr> ar_outcome = Some (Local (fst (acquireLocal c nowLocal sessionId st))),
          ar_state = snd (acquireLocal c nowLocal sessionId st),
          ar_warnings = [WaitTimeout (maskSession sessionId) (queueTimeoutMs c)] \<rparr>) \<and>
   (enabled c \<longrightarrow> sessionId \<noteq> [] \<longrightarrow>
      acquire c sha1 False now nowLocal sessionId polls st =
        \<lparr> ar_outcome = Some (Local (fst (acquireLocal c nowLocal sessionId st))),
          ar_state = snd (acquireLocal c nowLocal sessionId st),
          ar_warnings = [] \<rparr>)"
proof -
  have 3: "acquireDistributed c sha1 sessionId now polls =
        Some (Inl (WaitTimeout (maskSession sessionId) (queueTimeoutMs c)))"
    if "\<forall>q \<in> set polls. denied c (getRedisKeys sha1 sessionId) (max (minIntervalMs c * 50) 60000) q"
      "\<exists>q \<in> set polls. now + queueTimeoutMs c \<le> p_now q \<or> now + queueTimeoutMs c \<le> p_after q"
    unfolding acquireDistributed_def using that by (rule poll_loop_times_out)
  have 1: "acquire c sha1 True now nowLocal sessionId polls st =
        \<lparr> ar_outcome = Some (Local (fst (acquireLocal c nowLocal sessionId st))),
          ar_state = snd (acquireLocal c nowLocal sessionId st),
          ar_warnings = [e] \<rparr>"
    if "enabled c" "sessionId \<noteq> []" "acquireDistributed c sha1 sessionId now polls = Some (Inl e)" for e polls
    using that by (simp add: acquire_def)
  have 2: "acquireDistributed c sha1 sessionId now (p # ps) = Some (Inl (RedisError msg))"
    if "p_now p < now + queueTimeoutMs c" "p_eval p = Inl msg"
    using that by (simp add: acquireDistributed_def)
  have 4: "acquire c sha1 False now nowLocal sessionId polls st =
        \<lparr> ar_outcome = Some (Local (fst (acquireLocal c nowLocal sessionId st))),
          ar_state = snd (acquireLocal c nowLocal sessionId st),
          ar_warnings = [] \<rparr>"
    if "enabled c" "sessionId \<noteq> []"
    using that by (simp add: acquire_def)
  show ?thesis using 1 2 3 4 by blast
qed

theorem C6_fallback_to_local_witness:
  "enabled (constructor env0) \<and> ''tok'' \<noteq> [] \<and>
   acquireDistributed (constructor env0) digest0 ''tok'' 0 polls3 = Some (Inl (WaitTimeout ''***'' 120000)) \<and>
   acquire (constructor env0) digest0 True 0 120002 ''tok'' polls3 initial =
     \<lparr> ar_outcome = Some (Local (Inr 0)),
       ar_state = run (constructor env0) [(120002, Acquire ''tok'')],
       ar_warnings = [WaitTimeout ''***'' 120000] \<rparr> \<and>
   map rc_waiter (closures (run (constructor env0) [(120002, Acquire ''tok'')])) = [0] \<and>
   acquire (constructor env0) digest0 True 0 12 ''tok''
       [\<lparr> p_now = 10, p_eval = Inl ''ECONNRESET'', p_after = 11 \<rparr>] initial =
     \<lparr> ar_outcome = Some (Local (Inr 0)),
       ar_state = run (constructor env0) [(12, Acquire ''tok'')],
       ar_warnings = [RedisError ''ECONNRESET''] \<rparr>"
proof -
  let ?p = "\<lparr> p_now = 10, p_eval = Inl ''ECONNRESET'', p_after = 11 \<rparr>"
  have en: "enabled (constructor env0)" "queueTimeoutMs (constructor env0) = 120000" by (simp_all add: cfg0)
  have d: "acquireDistributed (constructor env0) digest0 ''tok'' 0 polls3 = Some (Inl (WaitTimeout ''***'' 120000))"
    by (simp add: polls3_def acquireDistributed_def cfg0 getRedisKeys_def digest0_def REDIS_KEY_PREFIX_def
        REDIS_ACQUIRE_SCRIPT_def GET_or_0_def db_tok_def maskSession_def)
  have l: "fst (acquireLocal (constructor env0) t ''tok'' initial) = Inr 0"
    "snd (acquireLocal (constructor env0) t ''tok'' initial) = run (constructor env0) [(t, Acquire ''tok'')]" for t
    by (simp_all add: cfg0 run_def acquireLocal_def getBucket_def initial_def new_bucket_def Let_def)
  have c: "map rc_waiter (closures (run (constructor env0) [(120002, Acquire ''tok'')])) = [0]"
    by (simp add: cfg0 eval_local)
  note T = C6_fallback_to_local[where c = "constructor env0" and sessionId = "''tok''" and ?sha1.0 = digest0
      and now = 0 and st = initial and p = ?p and ps = "[]" and msg = "''ECONNRESET''"]
  have t1: "acquire (constructor env0) digest0 True 0 120002 ''tok'' polls3 initial =
     \<lparr> ar_outcome = Some (Local (Inr 0)),
       ar_state = run (constructor env0) [(120002, Acquire ''tok'')],
       ar_warnings = [WaitTimeout ''***'' 120000] \<rparr>"
    using T[where polls = polls3 and nowLocal = 120002 and err = "WaitTimeout ''***'' 120000"] en d l by simp
  have t2: "acquire (constructor env0) digest0 True 0 12 ''tok'' [?p] initial =
     \<lparr> ar_outcome = Some (Local (Inr 0)),
       ar_state = run (constructor env0) [(12, Acquire ''tok'')],
       ar_warnings = [RedisError ''ECONNRESET''] \<rparr>"
    using T[where polls = "[]" and nowLocal = 12] en l by simp
  show ?thesis using en(1) d t1 c t2 by simp
qed


section \<open>Spacing of grants\<close>

text \<open>
  What the code does keep. In local mode, two grants of the same bucket object start at
  least \<^verbatim>\<open>minIntervalMs\<close> apart, after any sequence of events and whatever the clock
  readings are. In distributed mode, a grant that follows another grant of the same
  credential, also across the release of the first, comes at least \<^verbatim>\<open>minIntervalMs\<close>
  later: the release script leaves next-allowed-at in the store.
\<close>

lemma sp_inv_frame:
  assumes "sp_inv c st" "closures st' = closures st" "next_addr st \<le> next_addr st'"
    "\<forall>a < next_addr st. lastStartedAt (heap st' a) = lastStartedAt (heap st a)"
  shows "sp_inv c st'"
  using assms unfolding sp_inv_def by (metis order_less_le_trans)

lemma sp_inv_cleanup: "sp_inv c st \<Longrightarrow> sp_inv c (cleanupBucket s a st)"
  by (erule sp_inv_frame) (simp_all add: cleanupBucket_eq)

lemma sp_inv_grant:
  assumes sp: "sp_inv c st" and a: "a < next_addr st" and mi: "0 \<le> minIntervalMs c"
    and w: "lastStartedAt (heap st a) + minIntervalMs c \<le> now"
  shows "sp_inv c (grant now s a wt st)"
  unfolding sp_inv_def
proof (intro conjI ballI allI impI)
  fix cl assume "cl \<in> set (closures (grant now s a wt st))"
  then consider "cl \<in> set (closures st)" |
    "cl = \<lparr> rc_waiter = wt, rc_session = s, rc_bucket = a, rc_released = False, rc_startedAt = now \<rparr>"
    by (auto simp: grant_def)
  then show "rc_bucket cl < next_addr (grant now s a wt st)"
  proof cases
    case 1 then show ?thesis using sp by (simp add: sp_inv_def grant_def)
  next
    case 2 then show ?thesis using a by (simp add: grant_def)
  qed
next
  fix cl assume "cl \<in> set (closures (grant now s a wt st))"
  then consider "cl \<in> set (closures st)" |
    "cl = \<lparr> rc_waiter = wt, rc_session = s, rc_bucket = a, rc_released = False, rc_startedAt = now \<rparr>"
    by (auto simp: grant_def)
  then show "rc_startedAt cl \<le> lastStartedAt (heap (grant now s a wt st) (rc_bucket cl))"
  proof cases
    case 1
    then have "rc_startedAt cl \<le> lastStartedAt (heap st (rc_bucket cl))" using sp by (simp add: sp_inv_def)
    then show ?thesis using w mi by (auto simp: grant_def)
  next
    case 2 then show ?thesis by (simp add: grant_def)
  qed
next
  fix i j
  let ?cs = "closures (grant now s a wt st)"
  assume ij: "i < j" "j < length ?cs" "rc_bucket (?cs ! i) = rc_bucket (?cs ! j)"
  have cs: "?cs = closures st @ [\<lparr> rc_waiter = wt, rc_session = s, rc_bucket = a, rc_released = False,
                                   rc_startedAt = now \<rparr>]" by (simp add: grant_def)
  show "rc_startedAt (?cs ! i) + minIntervalMs c \<le> rc_startedAt (?cs ! j)"
  proof (cases "j < length (closures st)")
    case True
    then show ?thesis using ij sp unfolding cs sp_inv_def by (simp add: nth_append)
  next
    case False
    then have j: "j = length (closures st)" using ij(2) unfolding cs by simp
    then have i: "i < length (closures st)" using ij(1) by simp
    then have "rc_bucket (closures st ! i) = a" using ij(3) j unfolding cs by (simp add: nth_append)
    moreover have "closures st ! i \<in> set (closures st)" using i by simp
    ultimately have "rc_startedAt (closures st ! i) \<le> lastStartedAt (heap st a)"
      using sp unfolding sp_inv_def by blast
    then show ?thesis using w i j unfolding cs by (simp add: nth_append)
  qed
qed

lemma sp_inv_processQueue:
  "sp_inv c st \<Longrightarrow> a < next_addr st \<Longrightarrow> 0 \<le> minIntervalMs c \<Longrightarrow> sp_inv c (processQueue c now s a st)"
proof (induction c now s a st rule: processQueue.induct)
  case (1 c now sessionId a st)
  show ?case
  proof (cases "\<not> enabled c \<or> active (heap st a) \<ge> maxConcurrent c \<or> queue (heap st a) = []")
    case True
    then show ?thesis using "1.prems"(1) sp_inv_cleanup[OF "1.prems"(1)]
      by (subst processQueue.simps) auto
  next
    case False
    show ?thesis
    proof (cases "max 0 (lastStartedAt (heap st a) + minIntervalMs c - now) > 0")
      case True
      have "sp_inv c (st\<lparr> heap := (heap st)(a := (heap st a)\<lparr> timer := Some tm \<rparr>) \<rparr>)" for tm
        using "1.prems"(1) by (rule sp_inv_frame) simp_all
      then show ?thesis using False True "1.prems"(1)
        by (subst processQueue.simps) auto
    next
      case nowait: False
      obtain w rest where q: "queue (heap st a) = w # rest" using False by (cases "queue (heap st a)") auto
      let ?g = "grant now sessionId a w st"
      have le: "lastStartedAt (heap st a) + minIntervalMs c \<le> now" using nowait by simp
      have g: "sp_inv c ?g" using sp_inv_grant[OF "1.prems"(1,2,3) le] .
      have n: "a < next_addr ?g" using "1.prems"(2) by (simp add: grant_def)
      show ?thesis
      proof (cases "active (heap ?g a) < maxConcurrent c")
        case True
        have e: "processQueue c now sessionId a st = processQueue c now sessionId a ?g"
          using False nowait q True by (subst processQueue.simps) (simp add: Let_def)
        show ?thesis unfolding e
          using "1.IH"[OF _ _ _ _ q refl True g n "1.prems"(3)] False nowait q by simp
      next
        case F2: False
        have e: "processQueue c now sessionId a st = ?g"
          using False nowait q F2 by (subst processQueue.simps) (simp add: Let_def)
        show ?thesis unfolding e by (rule g)
      qed
    qed
  qed
qed

lemma sp_inv_acquireLocal:
  assumes inv: "limiter_inv c st" and sp: "sp_inv c st" and mi: "0 \<le> minIntervalMs c"
  shows "sp_inv c (snd (acquireLocal c now s st))"
proof -
  obtain a st1 where g: "getBucket s st = (a, st1)" by (cases "getBucket s st")
  have p1: "pre_inv c st1" and b1: "buckets st1 s = Some a" using getBucket_inv[OF inv g] by auto
  then have a1: "a < next_addr st1" by (auto simp: pre_inv_def inv_alloc_def)
  have s1: "sp_inv c st1"
  proof (cases "buckets st s")
    case None
    then have e: "st1 = st\<lparr> buckets := (buckets st)(s \<mapsto> next_addr st),
        heap := (heap st)(next_addr st := new_bucket), next_addr := Suc (next_addr st) \<rparr>"
      using g by (auto simp: getBucket_def)
    show ?thesis using sp by (rule sp_inv_frame) (simp_all add: e)
  next
    case (Some x)
    then show ?thesis using sp g by (simp add: getBucket_def)
  qed
  show ?thesis
  proof (cases "int (length (queue (heap st1 a))) \<ge> maxQueuePerSession c")
    case True
    then show ?thesis using g s1 by (simp add: acquireLocal_def)
  next
    case False
    define hs where "hs = (if queueTimeoutMs c > 0
        then [\<lparr> th_waiter = next_waiter st1, th_session = s, th_bucket = a,
                th_deadline = now + setTimeout_delay (queueTimeoutMs c) \<rparr>] else [])"
    define st3 where "st3 = st1\<lparr> next_waiter := Suc (next_waiter st1), timeouts := timeouts st1 @ hs,
        heap := (heap st1)(a := (heap st1 a)\<lparr> queue := queue (heap st1 a) @ [next_waiter st1] \<rparr>) \<rparr>"
    have e: "snd (acquireLocal c now s st) = processQueue c now s a st3"
      using False g by (simp add: acquireLocal_def Let_def st3_def hs_def)
    have "sp_inv c st3" using s1 by (rule sp_inv_frame) (simp_all add: st3_def)
    moreover have "a < next_addr st3" using a1 by (simp add: st3_def)
    ultimately show ?thesis unfolding e using mi by (rule sp_inv_processQueue)
  qed
qed

lemma sp_inv_release:
  assumes sp: "sp_inv c st" and mi: "0 \<le> minIntervalMs c"
  shows "sp_inv c (release c now i st)"
proof (cases "i < length (closures st) \<and> \<not> rc_released (closures st ! i)")
  case False
  then show ?thesis using sp by (auto simp: release_def)
next
  case True
  define cl where "cl = closures st ! i"
  define st1 where "st1 = st\<lparr> closures := (closures st)[i := cl\<lparr> rc_released := True \<rparr>],
      heap := (heap st)(rc_bucket cl := (heap st (rc_bucket cl))\<lparr> active := max 0 (active (heap st (rc_bucket cl)) - 1) \<rparr>) \<rparr>"
  have e: "release c now i st = cleanupBucket (rc_session cl) (rc_bucket cl) (processQueue c now (rc_session cl) (rc_bucket cl) st1)"
    using True by (simp add: release_def Let_def st1_def cl_def)
  have cin: "cl \<in> set (closures st)" using True by (simp add: cl_def)
  have nth: "rc_bucket (closures st1 ! k) = rc_bucket (closures st ! k) \<and>
             rc_startedAt (closures st1 ! k) = rc_startedAt (closures st ! k)" if "k < length (closures st)" for k
    using that by (cases "k = i") (simp_all add: st1_def cl_def)
  have s1: "sp_inv c st1"
    unfolding sp_inv_def
  proof (intro conjI ballI allI impI)
    fix x assume "x \<in> set (closures st1)"
    then obtain k where k: "k < length (closures st)" "x = closures st1 ! k"
      by (auto simp: st1_def in_set_conv_nth)
    have "closures st ! k \<in> set (closures st)" using k(1) by simp
    then have "rc_bucket (closures st ! k) < next_addr st"
      "rc_startedAt (closures st ! k) \<le> lastStartedAt (heap st (rc_bucket (closures st ! k)))"
      using sp unfolding sp_inv_def by blast+
    then show "rc_bucket x < next_addr st1"
      "rc_startedAt x \<le> lastStartedAt (heap st1 (rc_bucket x))"
      using nth[OF k(1)] k(2) by (auto simp: st1_def)
  next
    fix k j assume "k < j" "j < length (closures st1)" "rc_bucket (closures st1 ! k) = rc_bucket (closures st1 ! j)"
    then show "rc_startedAt (closures st1 ! k) + minIntervalMs c \<le> rc_startedAt (closures st1 ! j)"
      using sp nth[of k] nth[of j] unfolding sp_inv_def by (simp add: st1_def)
  qed
  have "rc_bucket cl < next_addr st1" using sp cin by (simp add: sp_inv_def st1_def)
  then show ?thesis unfolding e using s1 mi by (intro sp_inv_cleanup sp_inv_processQueue)
qed

lemma sp_inv_waiterTimeout: "sp_inv c st \<Longrightarrow> sp_inv c (waiterTimeout c w st)"
proof -
  assume sp: "sp_inv c st"
  have "sp_inv c (st\<lparr> timeouts := ts \<rparr>)" for ts using sp by (rule sp_inv_frame) simp_all
  moreover have "sp_inv c (st\<lparr> timeouts := ts, heap := (heap st)(a := (heap st a)\<lparr> queue := q \<rparr>),
      rejected := rj \<rparr>)" for ts a q rj
    using sp by (rule sp_inv_frame) simp_all
  ultimately show ?thesis
    using sp by (auto simp: waiterTimeout_def Let_def split: option.splits intro!: sp_inv_cleanup)
qed

lemma sp_inv_retryTimer:
  assumes inv: "limiter_inv c st" and sp: "sp_inv c st" and mi: "0 \<le> minIntervalMs c"
  shows "sp_inv c (retryTimer c now a st)"
proof (cases "timer (heap st a)")
  case None
  then show ?thesis using sp by (simp add: retryTimer_def)
next
  case (Some tm)
  obtain s due where tm: "tm = (s, due)" by (cases tm)
  have "buckets st s = Some a" using inv Some tm by (auto simp: limiter_inv_def pre_inv_def inv_timer_def)
  then have a: "a < next_addr st" using inv by (auto simp: limiter_inv_def pre_inv_def inv_alloc_def)
  have "sp_inv c (st\<lparr> heap := (heap st)(a := (heap st a)\<lparr> timer := None \<rparr>) \<rparr>)"
    using sp by (rule sp_inv_frame) simp_all
  then show ?thesis using Some tm a mi by (simp add: retryTimer_def sp_inv_processQueue)
qed

lemma sp_inv_fire:
  assumes inv: "limiter_inv c st" and sp: "sp_inv c st" and mi: "0 \<le> minIntervalMs c"
  shows "sp_inv c (fire c st e)"
proof -
  obtain now ev where e: "e = (now, ev)" by (cases e)
  show ?thesis
    using e sp sp_inv_acquireLocal[OF inv sp mi] sp_inv_release[OF sp mi] sp_inv_waiterTimeout[OF sp]
      sp_inv_retryTimer[OF inv sp mi]
    by (cases ev) (simp_all split: option.splits prod.splits)
qed

lemma run_sp: "sp_inv (constructor env) (run (constructor env) evs)"
proof (induction evs rule: rev_induct)
  case Nil
  then show ?case by (simp add: run_def sp_inv_def initial_def)
next
  case (snoc e evs)
  then show ?case using sp_inv_fire[OF run_inv _ constructor_bounds(1)] by (simp add: run_snoc)
qed

lemma local_spacing_within_bucket:
  assumes "i < j" "j < length (closures (run (constructor env) evs))"
    "rc_bucket (closures (run (constructor env) evs) ! i) = rc_bucket (closures (run (constructor env) evs) ! j)"
  shows "rc_startedAt (closures (run (constructor env) evs) ! i) + minIntervalMs (constructor env)
           \<le> rc_startedAt (closures (run (constructor env) evs) ! j)"
  using run_sp[of env evs] assms unfolding sp_inv_def by blast

lemma distributed_spacing_survives_release:
  assumes k: "ik \<noteq> nk"
    and g1: "granted_flag (fst (REDIS_ACQUIRE_SCRIPT ik nk now1 mi mc it nt db)) = 1"
    and g2: "granted_flag (fst (REDIS_ACQUIRE_SCRIPT ik nk now2 mi mc it nt
               (snd (REDIS_RELEASE_SCRIPT ik (snd (REDIS_ACQUIRE_SCRIPT ik nk now1 mi mc it nt db)))))) = 1"
  shows "now1 + mi \<le> now2"
proof -
  have "snd (REDIS_ACQUIRE_SCRIPT ik nk now1 mi mc it nt db) nk = Some \<lparr> re_value = now1 + mi, re_px = Some nt \<rparr>"
    using script_granted_store[OF k g1] by simp
  then have "snd (REDIS_RELEASE_SCRIPT ik (snd (REDIS_ACQUIRE_SCRIPT ik nk now1 mi mc it nt db))) nk
      = Some \<lparr> re_value = now1 + mi, re_px = Some nt \<rparr>"
    using release_script_store[of "snd (REDIS_ACQUIRE_SCRIPT ik nk now1 mi mc it nt db)" ik] k by simp
  then have "GET_or_0 (snd (REDIS_RELEASE_SCRIPT ik (snd (REDIS_ACQUIRE_SCRIPT ik nk now1 mi mc it nt db)))) nk
      = now1 + mi" by (simp add: GET_or_0_def)
  then show ?thesis using g2 by (simp add: script_granted_iff)
qed

text \<open>
  Claim C2, evaluated on the code. With the default interval of 200 ms, a credential is
  granted at time 1000 and releases at 1010; the bucket is then idle and
  \<^verbatim>\<open>cleanupBucket\<close> deletes it from the registry, together with its
  \<^verbatim>\<open>lastStartedAt\<close>. The credential asks again at 1020: \<^verbatim>\<open>getBucket\<close> makes a new bucket
  object whose \<^verbatim>\<open>lastStartedAt\<close> is 0, and the second grant starts at 1020, only 20 ms
  after the first. The two grants come from two bucket objects, so the spacing inside
  one bucket does not reach them.
\<close>

theorem C2_local_spacing_lost_on_cleanup:
  "map rc_startedAt (closures (run (constructor env0)
       [(1000, Acquire ''tok''), (1010, Release 0), (1020, Acquire ''tok'')])) = [1000, 1020] \<and>
   map rc_session (closures (run (constructor env0)
       [(1000, Acquire ''tok''), (1010, Release 0), (1020, Acquire ''tok'')])) = [''tok'', ''tok''] \<and>
   map rc_bucket (closures (run (constructor env0)
       [(1000, Acquire ''tok''), (1010, Release 0), (1020, Acquire ''tok'')])) = [0, 1] \<and>
   buckets (run (constructor env0) [(1000, Acquire ''tok''), (1010, Release 0)]) ''tok'' = None \<and>
   minIntervalMs (constructor env0) = 200"
  by (simp add: cfg0 eval_local)

section \<open>The asynchronous work of the video route\<close>

lemma update_existing:
  "tasks store tid = Some t \<Longrightarrow>
   taskStore_update tid u store = store\<lparr> tasks := (tasks store)(tid \<mapsto> merge u t) \<rparr>"
  by (simp add: taskStore_update_def)

lemma work_try_store:
  assumes "tasks store (j_task j) = Some t"
  shows "tasks (snd (work_try ext j store)) (j_task j) =
     (case fst (work_try ext j store) of
        Inl msg \<Rightarrow> Some (t\<lparr> t_status := Processing, t_progress := Some progress_generating \<rparr>)
      | Inr u \<Rightarrow>
          (case x_generateVideo ext (j_model j) (j_prompt j) (j_options j) (j_token j) of
             Inl msg \<Rightarrow> None
           | Inr v \<Rightarrow>
               (case format_result ext (j_response_format j) (j_prompt j) (j_token j) v of
                  Inl msg \<Rightarrow> None
                | Inr res \<Rightarrow> Some (t\<lparr> t_status := Completed, t_result := Some res,
                                     t_progress := Some progress_generating,
                                     t_completed_at := Some (x_now ext div 1000) \<rparr>)))) \<and>
     (\<forall>i. i \<noteq> j_task j \<longrightarrow> tasks (snd (work_try ext j store)) i = tasks store i)"
  using assms
  by (auto simp: work_try_def Let_def update_existing merge_def no_change_def split: sum.splits)

lemma work_try_throws:
  "fst (work_try ext j store) = Inl msg \<longleftrightarrow>
     x_generateVideo ext (j_model j) (j_prompt j) (j_options j) (j_token j) = Inl msg \<or>
     (\<exists>v. x_generateVideo ext (j_model j) (j_prompt j) (j_options j) (j_token j) = Inr v \<and>
          format_result ext (j_response_format j) (j_prompt j) (j_token j) v = Inl msg)"
  by (auto simp: work_try_def Let_def split: sum.splits)

lemma work_failed:
  assumes t: "taskStore_get (j_task j) store = Some t" and f: "fst (work_try ext j store) = Inl msg"
  shows "taskStore_get (j_task j) (w_store (work ext j store)) =
           Some (t\<lparr> t_status := Failed, t_error := Some msg, t_progress := Some progress_generating,
                    t_completed_at := Some (x_now ext div 1000) \<rparr>) \<and>
         w_logged (work ext j store) = [msg]"
proof -
  have t': "tasks store (j_task j) = Some t" using t by (simp add: taskStore_get_def)
  obtain r s1 where w: "work_try ext j store = (r, s1)" by (cases "work_try ext j store")
  have r: "r = Inl msg" using f w by simp
  have "tasks s1 (j_task j) = Some (t\<lparr> t_status := Processing, t_progress := Some progress_generating \<rparr>)"
    using work_try_store[OF t', of ext] w r by simp
  then show ?thesis
    using w r by (simp add: work_def taskStore_get_def update_existing merge_def no_change_def)
qed

lemma work_completed:
  assumes t: "taskStore_get (j_task j) store = Some t"
    and g: "x_generateVideo ext (j_model j) (j_prompt j) (j_options j) (j_token j) = Inr v"
    and r: "format_result ext (j_response_format j) (j_prompt j) (j_token j) v = Inr res"
  shows "taskStore_get (j_task j) (w_store (work ext j store)) =
           Some (t\<lparr> t_status := Completed, t_result := Some res, t_progress := Some progress_generating,
                    t_completed_at := Some (x_now ext div 1000) \<rparr>) \<and>
         w_logged (work ext j store) = []"
proof -
  have t': "tasks store (j_task j) = Some t" using t by (simp add: taskStore_get_def)
  show ?thesis
    using t' g r
    by (simp add: work_def work_try_def Let_def taskStore_get_def update_existing merge_def no_change_def)
qed

lemma work_webhooks:
  "w_webhooks (work ext j store) =
     (case taskStore_get (j_task j) (w_store (work ext j store)) of
        None \<Rightarrow> []
      | Some t' \<Rightarrow> if truthy (t_callback_url t') then [(t_callback_url t', t')] else [])"
  by (simp add: work_def Let_def split: prod.splits)

lemma work_callback_url:
  assumes t: "taskStore_get (j_task j) store = Some t"
  shows "\<exists>t'. taskStore_get (j_task j) (w_store (work ext j store)) = Some t' \<and>
              t_callback_url t' = t_callback_url t \<and> t_id t' = t_id t \<and> t_type t' = t_type t \<and>
              t_status t' \<in> {Completed, Failed}"
proof (cases "fst (work_try ext j store)")
  case (Inl msg)
  then show ?thesis using work_failed[OF t Inl] by simp
next
  case (Inr u)
  then obtain v res where "x_generateVideo ext (j_model j) (j_prompt j) (j_options j) (j_token j) = Inr v"
    "format_result ext (j_response_format j) (j_prompt j) (j_token j) v = Inr res"
    by (auto simp: work_try_def Let_def split: sum.splits)
  then show ?thesis using work_completed[OF t] by simp
qed

lemma work_other_tasks:
  assumes t: "taskStore_get (j_task j) store = Some t" and i: "i \<noteq> j_task j"
  shows "tasks (w_store (work ext j store)) i = tasks store i"
proof -
  have t': "tasks store (j_task j) = Some t" using t by (simp add: taskStore_get_def)
  obtain r s1 where w: "work_try ext j store = (r, s1)" by (cases "work_try ext j store")
  have "tasks s1 i = tasks store i" using work_try_store[OF t', of ext] w i by simp
  then show ?thesis using w i
    by (cases r) (auto simp: work_def Let_def taskStore_update_def split: option.splits)
qed

lemma truthy_valid_callback:
  assumes "cb = JUndefined \<or> (\<exists>u. cb = JStr u \<and> startsWith u ''http'')"
  shows "truthy cb \<longleftrightarrow> cb \<noteq> JUndefined"
  using assms by (auto simp: startsWith_def)

text \<open>
  Claim C7. For a task that is in the store, an exception of the generator (and any
  other exception that leaves the \<^verbatim>\<open>try\<close> block, such as a failed download for the
  base64 format) does not leave the work: the task record becomes \<open>Failed\<close> with
  \<open>error\<close> the message of the exception and \<open>completed_at\<close> the clock in seconds, and
  the message is logged. After either outcome the record read back from the store is
  \<open>Completed\<close> or \<open>Failed\<close> with the callback address it was created with, and
  \<^verbatim>\<open>sendWebhook\<close> is called once, with that record, exactly when the address is truthy;
  for an address that passed the validation of the route (absent, or a string that
  starts with \<open>http\<close>) that is exactly when it is set. No other task changes.
\<close>

theorem C7_failure_becomes_failed_task:
  assumes "taskStore_get (j_task j) store = Some t"
  shows "(x_generateVideo ext (j_model j) (j_prompt j) (j_options j) (j_token j) = Inl msg \<longrightarrow>
            fst (work_try ext j store) = Inl msg) \<and>
         (fst (work_try ext j store) = Inl msg \<longrightarrow>
            taskStore_get (j_task j) (w_store (work ext j store)) =
              Some (t\<lparr> t_status := Failed, t_error := Some msg, t_progress := Some progress_generating,
                       t_completed_at := Some (x_now ext div 1000) \<rparr>) \<and>
            w_logged (work ext j store) = [msg]) \<and>
         (\<exists>t'. taskStore_get (j_task j) (w_store (work ext j store)) = Some t' \<and>
               t_status t' \<in> {Completed, Failed} \<and> t_callback_url t' = t_callback_url t \<and>
               w_webhooks (work ext j store) = (if truthy (t_callback_url t) then [(t_callback_url t, t')] else [])) \<and>
         (t_callback_url t = JUndefined \<or> (\<exists>u. t_callback_url t = JStr u \<and> startsWith u ''http'') \<longrightarrow>
            (w_webhooks (work ext j store) \<noteq> [] \<longleftrightarrow> t_callback_url t \<noteq> JUndefined)) \<and>
         (\<forall>i. i \<noteq> j_task j \<longrightarrow> tasks (w_store (work ext j store)) i = tasks store i)"
proof -
  have 1: "x_generateVideo ext (j_model j) (j_prompt j) (j_options j) (j_token j) = Inl msg \<Longrightarrow>
            fst (work_try ext j store) = Inl msg"
    by (simp add: work_try_throws)
  note 2 = work_failed[OF assms, of ext msg]
  obtain t' where t': "taskStore_get (j_task j) (w_store (work ext j store)) = Some t'"
    "t_callback_url t' = t_callback_url t" "t_status t' \<in> {Completed, Failed}"
    using work_callback_url[OF assms, of ext] by blast
  have 3: "w_webhooks (work ext j store) = (if truthy (t_callback_url t) then [(t_callback_url t, t')] else [])"
    using work_webhooks[of ext j store] t' by simp
  have 4: "(w_webhooks (work ext j store) \<noteq> [] \<longleftrightarrow> t_callback_url t \<noteq> JUndefined)"
    if "t_callback_url t = JUndefined \<or> (\<exists>u. t_callback_url t = JStr u \<and> startsWith u ''http'')"
    using truthy_valid_callback[OF that] 3 by simp
  note 5 = work_other_tasks[OF assms, of _ ext]
  show ?thesis using 1 2 t' 3 4 5 by blast
qed


theorem C7_failure_becomes_failed_task_witness:
  "taskStore_get (j_task job0) store1 = Some task0 \<and>
   x_generateVideo ext_fail (j_model job0) (j_prompt job0) (j_options job0) (j_token job0) = Inl ''upstream 500'' \<and>
   taskStore_get (j_task job0) (w_store (work ext_fail job0 store1)) =
     Some (task0\<lparr> t_status := Failed, t_error := Some ''upstream 500'',
                  t_progress := Some progress_generating, t_completed_at := Some 1700000000 \<rparr>) \<and>
   w_logged (work ext_fail job0 store1) = [''upstream 500''] \<and>
   t_callback_url task0 = JStr ''http://cb'' \<and> startsWith ''http://cb'' ''http'' \<and>
   w_webhooks (work ext_fail job0 store1) =
     [(JStr ''http://cb'', task0\<lparr> t_status := Failed, t_error := Some ''upstream 500'',
                                   t_progress := Some progress_generating,
                                   t_completed_at := Some 1700000000 \<rparr>)]"
proof -
  have h: "taskStore_get (j_task job0) store1 = Some task0"
    by (simp add: taskStore_get_def job0_def store1_def)
  have g: "x_generateVideo ext_fail (j_model job0) (j_prompt job0) (j_options job0) (j_token job0) = Inl ''upstream 500''"
    by (simp add: ext_fail_def)
  have n: "x_now ext_fail div 1000 = 1700000000" by (simp add: ext_fail_def ext_ok_def)
  have c: "t_callback_url task0 = JStr ''http://cb''" "startsWith ''http://cb'' ''http''"
    "truthy (t_callback_url task0)"
    by (simp_all add: task0_def startsWith_def)
  note T = C7_failure_becomes_failed_task[OF h, where ext = ext_fail and msg = "''upstream 500''"]
  have f: "fst (work_try ext_fail job0 store1) = Inl ''upstream 500''" using T g by blast
  have t1: "taskStore_get (j_task job0) (w_store (work ext_fail job0 store1)) =
     Some (task0\<lparr> t_status := Failed, t_error := Some ''upstream 500'',
                  t_progress := Some progress_generating, t_completed_at := Some 1700000000 \<rparr>)"
    "w_logged (work ext_fail job0 store1) = [''upstream 500'']"
    using T f n by simp_all
  have t2: "w_webhooks (work ext_fail job0 store1) =
     [(JStr ''http://cb'', task0\<lparr> t_status := Failed, t_error := Some ''upstream 500'',
                                   t_progress := Some progress_generating,
                                   t_completed_at := Some 1700000000 \<rparr>)]"
    using T t1(1) c by auto
  show ?thesis using h g t1 t2 c(1,2) by blast
qed

section \<open>The two branches of the video route\<close>

lemma generations_async:
  assumes "validate (validations ext (isMultiPart r) r) = None" "guards r = None" "isAsync r"
  shows "generations ext r store queued =
     (Inr (AsyncAccepted (next_id store) ''pending''),
      store\<lparr> tasks := (tasks store)(next_id store \<mapsto> created_task ext r store),
             next_id := Suc (next_id store) \<rparr>,
      queued @ [enqueued_job ext r store])"
  using assms
  by (simp add: generations_def Let_def taskStore_create_def created_task_def enqueued_job_def)

lemma validations_generator:
  "validations (ext\<lparr> x_generateVideo := g \<rparr>) m r = validations ext m r"
  by (simp add: validations_def)

lemma finalDuration_generator:
  "finalDuration (ext\<lparr> x_generateVideo := g \<rparr>) r = finalDuration ext r"
  by (simp add: finalDuration_def Let_def split: json.splits)

lemma generation_options_generator:
  "generation_options (ext\<lparr> x_generateVideo := g \<rparr>) r = generation_options ext r"
  by (simp add: generation_options_def finalDuration_generator)

lemma generations_sync:
  assumes "validate (validations ext (isMultiPart r) r) = None" "guards r = None" "\<not> isAsync r"
  shows "generations ext r store queued =
     (case x_generateVideo ext (dflt (field (rq_body r) ''model'') (JStr (x_DEFAULT_MODEL ext)))
             (field (rq_body r) ''prompt'') (generation_options ext r)
             (x_sample_token ext (field (rq_headers r) ''authorization'')) of
        Inl msg \<Rightarrow> (Inl (Thrown msg), store, queued)
      | Inr generatedVideo \<Rightarrow>
          (case format_result ext (dflt (field (rq_body r) ''response_format'') (JStr ''url''))
                  (field (rq_body r) ''prompt'')
                  (x_sample_token ext (field (rq_headers r) ''authorization'')) generatedVideo of
             Inl msg \<Rightarrow> (Inl (Thrown msg), store, queued)
           | Inr res \<Rightarrow> (Inr (SyncResult res), store, queued)))"
  using assms by (simp add: generations_def Let_def)

text \<open>
  Claim C8. For a submission that passes the validation chain and the checks of the
  handler: when the effective flag \<^verbatim>\<open>isAsync\<close> is true, the handler creates one task
  (type \<open>Video\<close>, status \<open>Pending\<close>, under the next id of the store), enqueues one closure
  for that id and responds with that id and the status \<open>pending\<close>, and all of this is
  the same whatever the generator would do (the handler does not call it); when the flag
  is false, the handler calls the generator and responds with its result in the
  requested format, and leaves store and queue as they are. (The flag is false also for
  a JSON body whose \<^verbatim>\<open>async\<close> is the string \<open>true\<close>: only a multipart body turns the
  string into a boolean.)
\<close>

theorem C8_async_returns_pending_task:
  assumes "validate (validations ext (isMultiPart r) r) = None" and "guards r = None"
  shows "(isAsync r \<longrightarrow>
            generations ext r store queued =
              (Inr (AsyncAccepted (next_id store) ''pending''),
               store\<lparr> tasks := (tasks store)(next_id store \<mapsto> created_task ext r store),
                      next_id := Suc (next_id store) \<rparr>,
               queued @ [enqueued_job ext r store]) \<and>
            taskStore_get (next_id store) (fst (snd (generations ext r store queued))) =
              Some (created_task ext r store) \<and>
            t_id (created_task ext r store) = next_id store \<and>
            t_type (created_task ext r store) = Video \<and>
            t_status (created_task ext r store) = Pending \<and>
            j_task (enqueued_job ext r store) = next_id store \<and>
            generations (ext\<lparr> x_generateVideo := g \<rparr>) r store queued = generations ext r store queued) \<and>
         (\<not> isAsync r \<longrightarrow>
            x_generateVideo ext (dflt (field (rq_body r) ''model'') (JStr (x_DEFAULT_MODEL ext)))
               (field (rq_body r) ''prompt'') (generation_options ext r)
               (x_sample_token ext (field (rq_headers r) ''authorization'')) = Inr generatedVideo \<longrightarrow>
            format_result ext (dflt (field (rq_body r) ''response_format'') (JStr ''url''))
               (field (rq_body r) ''prompt'')
               (x_sample_token ext (field (rq_headers r) ''authorization'')) generatedVideo = Inr res \<longrightarrow>
            generations ext r store queued = (Inr (SyncResult res), store, queued))"
proof -
  have a: "generations ext r store queued =
              (Inr (AsyncAccepted (next_id store) ''pending''),
               store\<lparr> tasks := (tasks store)(next_id store \<mapsto> created_task ext r store),
                      next_id := Suc (next_id store) \<rparr>,
               queued @ [enqueued_job ext r store])" if "isAsync r"
    using generations_async[OF assms that] .
  have v: "validate (validations (ext\<lparr> x_generateVideo := g \<rparr>) (isMultiPart r) r) = None"
    using assms(1) by (simp add: validations_generator)
  have "created_task (ext\<lparr> x_generateVideo := g \<rparr>) r store = created_task ext r store"
    "enqueued_job (ext\<lparr> x_generateVideo := g \<rparr>) r store = enqueued_job ext r store"
    by (simp_all add: created_task_def enqueued_job_def generation_options_generator)
  then have i: "generations (ext\<lparr> x_generateVideo := g \<rparr>) r store queued = generations ext r store queued"
    if "isAsync r"
    using generations_async[OF v assms(2) that, of store queued] a[OF that] by simp
  have b: "taskStore_get (next_id store) (fst (snd (generations ext r store queued))) =
              Some (created_task ext r store)" if "isAsync r"
    using a[OF that] by (simp add: taskStore_get_def)
  have c: "t_id (created_task ext r store) = next_id store" "t_type (created_task ext r store) = Video"
    "t_status (created_task ext r store) = Pending" "j_task (enqueued_job ext r store) = next_id store"
    by (simp_all add: created_task_def enqueued_job_def)
  have s: "generations ext r store queued = (Inr (SyncResult res), store, queued)"
    if "\<not> isAsync r"
      "x_generateVideo ext (dflt (field (rq_body r) ''model'') (JStr (x_DEFAULT_MODEL ext)))
               (field (rq_body r) ''prompt'') (generation_options ext r)
               (x_sample_token ext (field (rq_headers r) ''authorization'')) = Inr generatedVideo"
      "format_result ext (dflt (field (rq_body r) ''response_format'') (JStr ''url''))
               (field (rq_body r) ''prompt'')
               (x_sample_token ext (field (rq_headers r) ''authorization'')) generatedVideo = Inr res"
    using generations_sync[OF assms that(1), of store queued] that(2,3) by simp
  show ?thesis using a b c i s by blast
qed

theorem C8_async_returns_pending_task_witness:
  "validate (validations ext_ok (isMultiPart r_async) r_async) = None \<and> guards r_async = None \<and>
   isAsync r_async \<and>
   generations ext_ok r_async store0 [] = (Inr (AsyncAccepted 0 ''pending''), store1, [job0]) \<and>
   taskStore_get 0 store1 = Some task0 \<and>
   generations ext_fail r_async store0 [] = generations ext_ok r_async store0 [] \<and>
   validate (validations ext_ok (isMultiPart r_sync) r_sync) = None \<and> guards r_sync = None \<and>
   \<not> isAsync r_sync \<and>
   generations ext_ok r_sync store0 [] =
     (Inr (SyncResult \<lparr> rd_created = 1700000000,
                        rd_data = [\<lparr> ri_url = Some ''https://cdn/v.mp4'', ri_b64_json = None,
                                     ri_revised_prompt = JStr ''a cat'', ri_history_id = ''h1'',
                                     ri_item_id = ''i1'', ri_preview_url = ''https://cdn/p.mp4'',
                                     ri_hq_url = ''https://cdn/hq.mp4'' \<rparr>] \<rparr>), store0, [])"
proof -
  have va: "validate (validations ext_ok (isMultiPart r_async) r_async) = None"
    by (simp add: validate_def validations_def r_async_def r_sync_def field_def undefinedOrString_def
        validDuration_def startsWith_def isMultiPart_def js_or_def ext_ok_def)
  have vs: "validate (validations ext_ok (isMultiPart r_sync) r_sync) = None"
    by (simp add: validate_def validations_def r_sync_def field_def undefinedOrString_def validDuration_def
        startsWith_def isMultiPart_def js_or_def ext_ok_def)
  have g: "guards r_sync = None" "guards r_async = None"
    by (simp_all add: guards_def r_async_def r_sync_def isOmniMode_def functionMode_def field_def js_or_def
        finalFilePaths_def dflt_def collectUploadedFileEntries_def MAX_STANDARD_INPUT_IMAGES_def)
  have a: "\<not> isAsync r_sync" "isAsync r_async"
    by (simp_all add: isAsync_def r_async_def r_sync_def isMultiPart_def field_def js_or_def startsWith_def)
  have ct: "created_task ext_ok r_async store0 = task0"
    by (simp add: created_task_def task0_def r_async_def r_sync_def store0_def field_def dflt_def ext_ok_def)
  have ej: "enqueued_job ext_ok r_async store0 = job0"
    by (simp add: enqueued_job_def job0_def r_async_def r_sync_def store0_def field_def dflt_def ext_ok_def)
  have s1: "store0\<lparr> tasks := (tasks store0)(next_id store0 \<mapsto> task0), next_id := Suc (next_id store0) \<rparr> = store1"
    by (simp add: store0_def store1_def)
  have ef: "ext_fail = ext_ok\<lparr> x_generateVideo := (\<lambda>m p opts tok. Inl ''upstream 500'') \<rparr>"
    by (simp add: ext_fail_def)
  have gv: "x_generateVideo ext_ok (dflt (field (rq_body r_sync) ''model'') (JStr (x_DEFAULT_MODEL ext_ok)))
               (field (rq_body r_sync) ''prompt'') (generation_options ext_ok r_sync)
               (x_sample_token ext_ok (field (rq_headers r_sync) ''authorization''))
       = Inr \<lparr> v_url = ''https://cdn/v.mp4'', v_history_id = ''h1'', v_item_id = ''i1'',
               v_preview_url = ''https://cdn/p.mp4'', v_hq_url = ''https://cdn/hq.mp4'' \<rparr>"
    by (simp add: ext_ok_def)
  have fr: "format_result ext_ok (dflt (field (rq_body r_sync) ''response_format'') (JStr ''url''))
               (field (rq_body r_sync) ''prompt'')
               (x_sample_token ext_ok (field (rq_headers r_sync) ''authorization''))
               \<lparr> v_url = ''https://cdn/v.mp4'', v_history_id = ''h1'', v_item_id = ''i1'',
                 v_preview_url = ''https://cdn/p.mp4'', v_hq_url = ''https://cdn/hq.mp4'' \<rparr>
       = Inr \<lparr> rd_created = 1700000000,
               rd_data = [\<lparr> ri_url = Some ''https://cdn/v.mp4'', ri_b64_json = None,
                            ri_revised_prompt = JStr ''a cat'', ri_history_id = ''h1'',
                            ri_item_id = ''i1'', ri_preview_url = ''https://cdn/p.mp4'',
                            ri_hq_url = ''https://cdn/hq.mp4'' \<rparr>] \<rparr>"
    by (simp add: format_result_def r_sync_def field_def dflt_def ext_ok_def)
  note TA = C8_async_returns_pending_task[OF va g(2), where store = store0 and queued = "[]"
      and g = "\<lambda>m p opts tok. Inl ''upstream 500''"]
  note TS = C8_async_returns_pending_task[OF vs g(1), where store = store0 and queued = "[]"]
  have t1: "generations ext_ok r_async store0 [] = (Inr (AsyncAccepted 0 ''pending''), store1, [job0])"
    using TA a(2) ct ej s1 by (simp add: store0_def)
  have t2: "generations ext_fail r_async store0 [] = generations ext_ok r_async store0 []"
    using TA a(2) ef by simp
  have t3: "taskStore_get 0 store1 = Some task0" by (simp add: taskStore_get_def store1_def)
  have t4: "generations ext_ok r_sync store0 [] =
     (Inr (SyncResult \<lparr> rd_created = 1700000000,
                        rd_data = [\<lparr> ri_url = Some ''https://cdn/v.mp4'', ri_b64_json = None,
                                     ri_revised_prompt = JStr ''a cat'', ri_history_id = ''h1'',
                                     ri_item_id = ''i1'', ri_preview_url = ''https://cdn/p.mp4'',
                                     ri_hq_url = ''https://cdn/hq.mp4'' \<rparr>] \<rparr>), store0, [])"
    using TS a(1) gv fr by blast
  show ?thesis using va vs g a t1 t2 t3 t4 by blast
qed

end
